theory Spec2Isabelle
  imports Main "HOL-Library.Word" "HOL-Library.Monad_Syntax"
begin

section \<open>The arena and its constants\<close>

text \<open>
  The program of \<^verbatim>\<open>coalesce.c\<close> works on one global array
  \<^verbatim>\<open>unsigned char area[BYTE_COUNT]\<close>. A byte is an \<open>8 word\<close>, the array a list of
  bytes of length \<open>BYTE_COUNT\<close>. A pointer into the array is its offset from
  \<^verbatim>\<open>area\<close>; the null pointer is a value of its own, so that a comparison of a pointer
  with the constant 0 is a comparison with \<open>NULL\<close>.

  Reading or writing outside the array, and forming a pointer in front of it, is
  undefined behaviour in C. The model makes it the result \<open>None\<close>: every function that
  touches the array returns an \<open>option\<close>.
\<close>

type_synonym byte = "8 word"
type_synonym area = "byte list"

datatype ptr = NULL | Ptr nat

abbreviation FREE :: byte where "FREE \<equiv> 0"
abbreviation ALLOCATED :: byte where "ALLOCATED \<equiv> 1"

abbreviation BYTE_COUNT :: nat where "BYTE_COUNT \<equiv> 256"
abbreviation MIN_PAYLOAD_SIZE :: nat where "MIN_PAYLOAD_SIZE \<equiv> 2"
abbreviation MIN_BLOCK_SIZE :: nat where "MIN_BLOCK_SIZE \<equiv> 6"
abbreviation HEADER_SIZE :: nat where "HEADER_SIZE \<equiv> 2"
abbreviation CONTROL_FIELDS_SIZE :: nat where "CONTROL_FIELDS_SIZE \<equiv> 4"

definition rd :: "area \<Rightarrow> nat \<Rightarrow> byte option" where
  "rd a i = (if i < BYTE_COUNT then Some (a ! i) else None)"

definition wr :: "area \<Rightarrow> nat \<Rightarrow> byte \<Rightarrow> area option" where
  "wr a i v = (if i < BYTE_COUNT then Some (a[i := v]) else None)"

definition ptr_sub :: "nat \<Rightarrow> nat \<Rightarrow> nat option" where
  "ptr_sub p n = (if n \<le> p then Some (p - n) else None)"

subsection \<open>The field macros, relative to \<open>block_ptr\<close>\<close>

definition TOP_STATUS :: "area \<Rightarrow> nat \<Rightarrow> byte option" where
  "TOP_STATUS a block_ptr = rd a block_ptr"

definition TOP_SIZE :: "area \<Rightarrow> nat \<Rightarrow> byte option" where
  "TOP_SIZE a block_ptr = rd a (block_ptr + 1)"

definition PAYLOAD_SIZE :: "area \<Rightarrow> nat \<Rightarrow> nat option" where
  "PAYLOAD_SIZE a block_ptr = map_option unat (TOP_SIZE a block_ptr)"

definition BLOCK_SIZE :: "area \<Rightarrow> nat \<Rightarrow> nat option" where
  "BLOCK_SIZE a block_ptr =
     map_option (\<lambda>s. unat s + CONTROL_FIELDS_SIZE) (TOP_SIZE a block_ptr)"

definition BOTTOM_SIZE :: "area \<Rightarrow> nat \<Rightarrow> byte option" where
  "BOTTOM_SIZE a block_ptr =
     do { n \<leftarrow> PAYLOAD_SIZE a block_ptr; rd a (block_ptr + n + 2) }"

definition BOTTOM_STATUS :: "area \<Rightarrow> nat \<Rightarrow> byte option" where
  "BOTTOM_STATUS a block_ptr =
     do { n \<leftarrow> PAYLOAD_SIZE a block_ptr; rd a (block_ptr + n + 3) }"

definition set_TOP_STATUS :: "area \<Rightarrow> nat \<Rightarrow> byte \<Rightarrow> area option" where
  "set_TOP_STATUS a block_ptr v = wr a block_ptr v"

definition set_TOP_SIZE :: "area \<Rightarrow> nat \<Rightarrow> byte \<Rightarrow> area option" where
  "set_TOP_SIZE a block_ptr v = wr a (block_ptr + 1) v"

definition set_BOTTOM_SIZE :: "area \<Rightarrow> nat \<Rightarrow> byte \<Rightarrow> area option" where
  "set_BOTTOM_SIZE a block_ptr v =
     do { n \<leftarrow> PAYLOAD_SIZE a block_ptr; wr a (block_ptr + n + 2) v }"

definition set_BOTTOM_STATUS :: "area \<Rightarrow> nat \<Rightarrow> byte \<Rightarrow> area option" where
  "set_BOTTOM_STATUS a block_ptr v =
     do { n \<leftarrow> PAYLOAD_SIZE a block_ptr; wr a (block_ptr + n + 3) v }"

definition set_TOP_STATUS_OF_NEXT_BLOCK :: "area \<Rightarrow> nat \<Rightarrow> byte \<Rightarrow> area option" where
  "set_TOP_STATUS_OF_NEXT_BLOCK a block_ptr v =
     do { n \<leftarrow> PAYLOAD_SIZE a block_ptr; wr a (block_ptr + n + 4) v }"

definition set_TOP_SIZE_OF_NEXT_BLOCK :: "area \<Rightarrow> nat \<Rightarrow> byte \<Rightarrow> area option" where
  "set_TOP_SIZE_OF_NEXT_BLOCK a block_ptr v =
     do { n \<leftarrow> PAYLOAD_SIZE a block_ptr; wr a (block_ptr + n + 5) v }"

section \<open>\<open>simple_init\<close>\<close>

text \<open>
  The array is a global, so it holds zeros when the program starts.
  \<open>simple_init\<close> writes twelve bytes at constant indices.
\<close>

definition area0 :: area where
  "area0 = replicate BYTE_COUNT 0"

definition simple_init :: "area \<Rightarrow> area" where
  "simple_init a =
     a[0 := ALLOCATED, 1 := 0, 2 := 0, 3 := ALLOCATED,
       4 := FREE, 5 := of_nat (BYTE_COUNT - 12),
       BYTE_COUNT - 6 := of_nat (BYTE_COUNT - 12), BYTE_COUNT - 5 := FREE,
       BYTE_COUNT - 4 := ALLOCATED, BYTE_COUNT - 3 := 0,
       BYTE_COUNT - 2 := 0, BYTE_COUNT - 1 := ALLOCATED]"

section \<open>\<open>print_blocks\<close>\<close>

text \<open>
  \<open>print_blocks\<close> walks the array from offset 0, adding \<open>BLOCK_SIZE\<close> until the end
  of the array, and prints the offset and the four fields of every block. The model
  returns what is printed, one record for each block.
\<close>

record block_info =
  offset :: nat
  top_status :: byte
  top_size :: byte
  bottom_size :: byte
  bottom_status :: byte

function print_blocks_from :: "area \<Rightarrow> nat \<Rightarrow> block_info list option" where
  "print_blocks_from a block_ptr =
     (if block_ptr < BYTE_COUNT then
        do {
          ts \<leftarrow> TOP_STATUS a block_ptr;
          tz \<leftarrow> TOP_SIZE a block_ptr;
          bz \<leftarrow> BOTTOM_SIZE a block_ptr;
          bs \<leftarrow> BOTTOM_STATUS a block_ptr;
          sz \<leftarrow> BLOCK_SIZE a block_ptr;
          rest \<leftarrow> print_blocks_from a (block_ptr + sz);
          Some (\<lparr>offset = block_ptr, top_status = ts, top_size = tz,
                  bottom_size = bz, bottom_status = bs\<rparr> # rest)
        }
      else Some [])"
  by pat_completeness auto
termination
  by (relation "measure (\<lambda>(a, block_ptr). BYTE_COUNT - block_ptr)")
     (auto simp: BLOCK_SIZE_def)

definition print_blocks :: "area \<Rightarrow> block_info list option" where
  "print_blocks a = print_blocks_from a 0"

section \<open>\<open>simple_allocate\<close>\<close>

text \<open>
  \<open>req_size\<close> is an \<^verbatim>\<open>unsigned int\<close>; the model takes a natural number. Every
  subtraction of the source is guarded by the comparison in front of it, so none wraps.
  A value stored into a byte is cut to eight bits (\<open>of_nat\<close>).

  The loop reads the status byte and the size byte of the block at \<open>block_ptr\<close>. The
  source reads the size byte on every path, in the test when the status is FREE and
  in \<^verbatim>\<open>block_ptr += BLOCK_SIZE\<close> otherwise, with no write in between; the model
  reads it once. The macros \<open>BOTTOM_SIZE\<close>, \<open>BOTTOM_STATUS\<close> and the two for the next
  block compute their address from the size byte as it is at that moment, so each
  \<open>set_\<close> function reads it from the array it is given.
\<close>

function simple_allocate_loop :: "area \<Rightarrow> nat \<Rightarrow> nat \<Rightarrow> (area \<times> ptr) option" where
  "simple_allocate_loop a req_size block_ptr =
     (if block_ptr < BYTE_COUNT then
        do {
          st \<leftarrow> rd a block_ptr;
          payload \<leftarrow> PAYLOAD_SIZE a block_ptr;
          if st = FREE \<and> payload \<ge> req_size then
            (if payload - req_size < MIN_BLOCK_SIZE then
               do {
                 a \<leftarrow> set_TOP_STATUS a block_ptr ALLOCATED;
                 a \<leftarrow> set_BOTTOM_STATUS a block_ptr ALLOCATED;
                 Some (a, Ptr (block_ptr + HEADER_SIZE))
               }
             else
               do {
                 let remaining_payload_size = payload - req_size - CONTROL_FIELDS_SIZE;
                 a \<leftarrow> set_BOTTOM_SIZE a block_ptr (of_nat remaining_payload_size);
                 a \<leftarrow> set_TOP_STATUS a block_ptr ALLOCATED;
                 a \<leftarrow> set_TOP_SIZE a block_ptr (of_nat req_size);
                 a \<leftarrow> set_BOTTOM_SIZE a block_ptr (of_nat req_size);
                 a \<leftarrow> set_BOTTOM_STATUS a block_ptr ALLOCATED;
                 a \<leftarrow> set_TOP_STATUS_OF_NEXT_BLOCK a block_ptr FREE;
                 a \<leftarrow> set_TOP_SIZE_OF_NEXT_BLOCK a block_ptr (of_nat remaining_payload_size);
                 Some (a, Ptr (block_ptr + HEADER_SIZE))
               })
          else simple_allocate_loop a req_size (block_ptr + payload + CONTROL_FIELDS_SIZE)
        }
      else Some (a, NULL))"
  by pat_completeness auto
termination
  by (relation "measure (\<lambda>(a, req_size, block_ptr). BYTE_COUNT - block_ptr)") auto

definition simple_allocate :: "area \<Rightarrow> nat \<Rightarrow> (area \<times> ptr) option" where
  "simple_allocate a req_size =
     (if req_size > BYTE_COUNT - CONTROL_FIELDS_SIZE then Some (a, NULL)
      else simple_allocate_loop a req_size 0)"

section \<open>\<open>simple_release\<close>\<close>

text \<open>
  The first loop of \<open>simple_release\<close> tests \<^verbatim>\<open>left_block == FREE\<close>: the pointer
  itself is compared with the constant 0, which is the test for the null pointer.
  The second loop reads the status byte behind the block; a read outside the array
  ends it with \<open>None\<close>, so it ends after at most 64 rounds.
  \<open>t_size\<close> is an \<^verbatim>\<open>int\<close> that only ever holds sums of byte values and of 4,
  below 256 whenever it is stored; the model takes a natural number.
  A null \<open>user_ptr\<close> has no block in front of it: the result is \<open>None\<close>.
\<close>

function release_left_loop :: "area \<Rightarrow> nat \<Rightarrow> ptr \<Rightarrow> nat \<Rightarrow> (nat \<times> ptr \<times> nat) option" where
  "release_left_loop a block_ptr left_block t_size =
     (if left_block = NULL then
        do {
          p \<leftarrow> ptr_sub block_ptr 2;
          s \<leftarrow> rd a p;
          let t_size = unat s + t_size;
          q \<leftarrow> ptr_sub block_ptr 4;
          block_ptr \<leftarrow> ptr_sub q (unat s);
          l \<leftarrow> ptr_sub block_ptr 1;
          release_left_loop a block_ptr (Ptr l) t_size
        }
      else Some (block_ptr, left_block, t_size))"
  by pat_completeness auto
termination
  by (relation "measure (\<lambda>(a, block_ptr, left_block, t_size). if left_block = NULL then 1 else 0)")
     auto

function release_right_loop :: "area \<Rightarrow> nat \<Rightarrow> nat \<Rightarrow> nat option" where
  "release_right_loop a block_ptr t_size =
     do {
       st \<leftarrow> rd a (block_ptr + t_size + 4);
       if st = FREE then
         do {
           s \<leftarrow> rd a (block_ptr + 5 + t_size);
           release_right_loop a block_ptr (unat s + t_size + 4)
         }
       else Some t_size
     }"
  by pat_completeness auto
termination
  by (relation "measure (\<lambda>(a, block_ptr, t_size). BYTE_COUNT - (block_ptr + t_size))")
     (auto simp: rd_def split: if_splits)

definition simple_release :: "area \<Rightarrow> ptr \<Rightarrow> area option" where
  "simple_release a user_ptr =
     (case user_ptr of
        NULL \<Rightarrow> None
      | Ptr u \<Rightarrow>
          do {
            block_ptr \<leftarrow> ptr_sub u HEADER_SIZE;
            l \<leftarrow> ptr_sub block_ptr 1;
            ts \<leftarrow> TOP_SIZE a block_ptr;
            a \<leftarrow> set_TOP_STATUS a block_ptr FREE;
            a \<leftarrow> set_BOTTOM_STATUS a block_ptr FREE;
            (block_ptr, left_block, t_size) \<leftarrow> release_left_loop a block_ptr (Ptr l) (unat ts);
            t_size \<leftarrow> release_right_loop a block_ptr t_size;
            a \<leftarrow> set_TOP_SIZE a block_ptr (of_nat t_size);
            set_BOTTOM_SIZE a block_ptr (of_nat t_size)
          })"

declare print_blocks_from.simps [simp del]
declare simple_allocate_loop.simps [simp del]
declare release_left_loop.simps [simp del]
declare release_right_loop.simps [simp del]

section \<open>What the claims speak about\<close>

subsection \<open>Properties of the printed block list\<close>

definition tags_agree :: "block_info \<Rightarrow> bool" where
  "tags_agree b = (top_status b = bottom_status b \<and> top_size b = bottom_size b)"

definition block_size :: "block_info \<Rightarrow> nat" where
  "block_size b = unat (top_size b) + CONTROL_FIELDS_SIZE"

text \<open>The blocks lie one behind the other from \<open>p\<close> to the end of the array.\<close>

fun contiguous_from :: "nat \<Rightarrow> block_info list \<Rightarrow> bool" where
  "contiguous_from p [] = (p = BYTE_COUNT)"
| "contiguous_from p (b # bs) = (offset b = p \<and> contiguous_from (p + block_size b) bs)"

text \<open>The sentinels are the first and the last block of the list.\<close>

definition non_sentinel :: "block_info list \<Rightarrow> block_info list" where
  "non_sentinel bs = butlast (tl bs)"

fun adjacent_free :: "block_info list \<Rightarrow> bool" where
  "adjacent_free (b # c # bs) =
     ((top_status b = FREE \<and> top_status c = FREE) \<or> adjacent_free (c # bs))"
| "adjacent_free bs = False"

subsection \<open>The states a caller can reach\<close>

text \<open>
  A state is the array together with the handles that \<open>simple_allocate\<close> has returned
  and that have not been released. \<open>simple_init\<close> runs once, on an array of the right
  length; afterwards the caller allocates, and releases outstanding handles.
\<close>

inductive reachable :: "area \<Rightarrow> nat set \<Rightarrow> bool" where
  init: "length a = BYTE_COUNT \<Longrightarrow> reachable (simple_init a) {}"
| allocate_ok:
    "reachable a H \<Longrightarrow> simple_allocate a n = Some (a', Ptr h) \<Longrightarrow> reachable a' (insert h H)"
| allocate_fail:
    "reachable a H \<Longrightarrow> simple_allocate a n = Some (a', NULL) \<Longrightarrow> reachable a' H"
| release:
    "reachable a H \<Longrightarrow> h \<in> H \<Longrightarrow> simple_release a (Ptr h) = Some a' \<Longrightarrow> reachable a' (H - {h})"

subsection \<open>Call sequences of the test driver's kind\<close>

text \<open>Two blocks of 12 bytes, released in the order of their allocation.\<close>

definition two_blocks_released :: "(ptr \<times> ptr \<times> block_info list) option" where
  "two_blocks_released =
     do {
       (a, p) \<leftarrow> simple_allocate (simple_init area0) 12;
       (a, q) \<leftarrow> simple_allocate a 12;
       a \<leftarrow> simple_release a p;
       a \<leftarrow> simple_release a q;
       bs \<leftarrow> print_blocks a;
       Some (p, q, bs)
     }"

text \<open>
  The sequence of \<open>main\<close>: three blocks of 12 bytes; the middle one is released,
  then the first, then the last.
\<close>

definition three_blocks_released :: "(ptr \<times> ptr \<times> ptr \<times> block_info list) option" where
  "three_blocks_released =
     do {
       (a, p1) \<leftarrow> simple_allocate (simple_init area0) 12;
       (a, p2) \<leftarrow> simple_allocate a 12;
       (a, p3) \<leftarrow> simple_allocate a 12;
       a \<leftarrow> simple_release a p2;
       a \<leftarrow> simple_release a p1;
       a \<leftarrow> simple_release a p3;
       bs \<leftarrow> print_blocks a;
       Some (p1, p2, p3, bs)
     }"

text \<open>
  Blocks of 12, 20 and 12 bytes, released in the order of their allocation, so that
  nothing is outstanding; then one more block of 20 bytes is allocated and released
  at once. The result holds the block list before and after that last pair of calls.
\<close>

definition round_trip_after_releases :: "(block_info list \<times> ptr \<times> block_info list) option" where
  "round_trip_after_releases =
     do {
       (a, p1) \<leftarrow> simple_allocate (simple_init area0) 12;
       (a, p2) \<leftarrow> simple_allocate a 20;
       (a, p3) \<leftarrow> simple_allocate a 12;
       a \<leftarrow> simple_release a p1;
       a \<leftarrow> simple_release a p2;
       a \<leftarrow> simple_release a p3;
       before \<leftarrow> print_blocks a;
       (a, p4) \<leftarrow> simple_allocate a 20;
       a \<leftarrow> simple_release a p4;
       after \<leftarrow> print_blocks a;
       Some (before, p4, after)
     }"

text \<open>Two blocks of 12 bytes, of which the first is released.\<close>

definition allocate_allocate_release :: "area option" where
  "allocate_allocate_release =
     do {
       (a, p) \<leftarrow> simple_allocate (simple_init area0) 12;
       (a, q) \<leftarrow> simple_allocate a 12;
       simple_release a p
     }"

text \<open>A request of 0 bytes on the array as \<open>simple_init\<close> leaves it.\<close>

definition allocate_zero_after_init :: "(ptr \<times> block_info list) option" where
  "allocate_zero_after_init =
     do {
       (a, p) \<leftarrow> simple_allocate (simple_init area0) 0;
       bs \<leftarrow> print_blocks a;
       Some (p, bs)
     }"

subsection \<open>What an allocation makes of a printed block\<close>

text \<open>
  The printed records that stand in the place of a free block \<open>b\<close> once \<open>n\<close> bytes
  have been allocated from it: the block itself, now allocated, when it is consumed
  whole, and an allocated block of \<open>n\<close> bytes followed by a new free block otherwise.
\<close>

definition carved :: "nat \<Rightarrow> block_info \<Rightarrow> block_info list" where
  "carved n b =
     (if unat (top_size b) - n < MIN_BLOCK_SIZE
      then [b\<lparr>top_status := ALLOCATED, bottom_status := ALLOCATED\<rparr>]
      else [\<lparr>offset = offset b, top_status = ALLOCATED, top_size = of_nat n,
              bottom_size = of_nat n, bottom_status = ALLOCATED\<rparr>,
            \<lparr>offset = offset b + n + CONTROL_FIELDS_SIZE, top_status = FREE,
              top_size = of_nat (unat (top_size b) - n - CONTROL_FIELDS_SIZE),
              bottom_size = of_nat (unat (top_size b) - n - CONTROL_FIELDS_SIZE),
              bottom_status = FREE\<rparr>])"

section \<open>Closed forms of what the branches write\<close>

text \<open>
  The array after the branch of \<open>simple_allocate\<close> that consumes the block at \<open>p\<close>
  whole, after the branch that splits it, and after \<open>simple_release\<close> has stored the
  final size \<open>t\<close>. They are proved equal to the results of the functions above
  (\<open>alloc_loop_whole\<close>, \<open>alloc_loop_split\<close>, \<open>simple_release_eq\<close>).
\<close>

definition consume_whole :: "area \<Rightarrow> nat \<Rightarrow> area" where
  "consume_whole a p = a[p := ALLOCATED, p + unat (a ! (p + 1)) + 3 := ALLOCATED]"

definition split_block :: "area \<Rightarrow> nat \<Rightarrow> nat \<Rightarrow> area" where
  "split_block a p n =
     (let r = of_nat (unat (a ! (p + 1)) - n - CONTROL_FIELDS_SIZE) in
      a[p + unat (a ! (p + 1)) + 2 := r, p := ALLOCATED, p + 1 := of_nat n,
        p + n + 2 := of_nat n, p + n + 3 := ALLOCATED, p + n + 4 := FREE, p + n + 5 := r])"

text \<open>The block at \<open>q\<close> was free and large enough, and \<open>a'\<close> is what the allocation made of \<open>a\<close>.\<close>

definition allocated_at :: "area \<Rightarrow> nat \<Rightarrow> nat \<Rightarrow> area \<Rightarrow> bool" where
  "allocated_at a n q a' =
     (q + 1 < BYTE_COUNT \<and> a ! q = FREE \<and> n \<le> unat (a ! (q + 1)) \<and>
      (if unat (a ! (q + 1)) - n < MIN_BLOCK_SIZE
       then q + unat (a ! (q + 1)) + 3 < BYTE_COUNT \<and> a' = consume_whole a q
       else q + unat (a ! (q + 1)) + 2 < BYTE_COUNT \<and> a' = split_block a q n))"

definition released :: "area \<Rightarrow> nat \<Rightarrow> nat \<Rightarrow> area" where
  "released a q t =
     a[q := FREE, q + unat (a ! (q + 1)) + 3 := FREE, q + 1 := of_nat t,
       q + unat (of_nat t :: byte) + 2 := of_nat t]"

section \<open>The layout invariant\<close>

text \<open>
  A tag is the status and the payload size of a block. A list of tags describes a
  stretch of the array: \<open>seg a p ts\<close> says that from offset \<open>p\<close> on the array holds
  blocks with these tags, one behind the other, each with its tag at both ends.
  \<open>span\<close> is the number of bytes of such a stretch, \<open>offs\<close> the offsets and statuses
  of its blocks, \<open>infos\<close> the records that \<open>print_blocks\<close> prints for it, and
  \<open>carve\<close> the tags that replace a free block's tag after an allocation.
\<close>

type_synonym tag = "byte \<times> byte"

abbreviation sentinel :: tag where "sentinel \<equiv> (ALLOCATED, 0)"

fun span :: "tag list \<Rightarrow> nat" where
  "span [] = 0"
| "span (t # ts) = unat (snd t) + CONTROL_FIELDS_SIZE + span ts"

fun seg :: "area \<Rightarrow> nat \<Rightarrow> tag list \<Rightarrow> bool" where
  "seg a p [] = True"
| "seg a p (t # ts) =
     (a ! p = fst t \<and> a ! (p + 1) = snd t \<and>
      a ! (p + unat (snd t) + 2) = snd t \<and> a ! (p + unat (snd t) + 3) = fst t \<and>
      seg a (p + unat (snd t) + CONTROL_FIELDS_SIZE) ts)"

fun offs :: "nat \<Rightarrow> tag list \<Rightarrow> (nat \<times> byte) list" where
  "offs p [] = []"
| "offs p (t # ts) = (p, fst t) # offs (p + unat (snd t) + CONTROL_FIELDS_SIZE) ts"

fun infos :: "nat \<Rightarrow> tag list \<Rightarrow> block_info list" where
  "infos p [] = []"
| "infos p (t # ts) =
     \<lparr>offset = p, top_status = fst t, top_size = snd t, bottom_size = snd t,
       bottom_status = fst t\<rparr> # infos (p + unat (snd t) + CONTROL_FIELDS_SIZE) ts"

definition carve :: "nat \<Rightarrow> byte \<Rightarrow> tag list" where
  "carve n sz =
     (if unat sz - n < MIN_BLOCK_SIZE then [(ALLOCATED, sz)]
      else [(ALLOCATED, of_nat n), (FREE, of_nat (unat sz - n - CONTROL_FIELDS_SIZE))])"

text \<open>
  The array is laid out as a sentinel, the blocks \<open>bs\<close> and a sentinel, filling it
  exactly; and every outstanding handle points behind the header of an allocated one
  among the blocks \<open>bs\<close>.
\<close>

definition layout :: "area \<Rightarrow> tag list \<Rightarrow> bool" where
  "layout a bs =
     (length a = BYTE_COUNT \<and> seg a 0 (sentinel # bs @ [sentinel]) \<and>
      span bs = BYTE_COUNT - 2 * CONTROL_FIELDS_SIZE)"

definition well_formed :: "area \<Rightarrow> nat set \<Rightarrow> bool" where
  "well_formed a H =
     (\<exists>bs. layout a bs \<and>
        (\<forall>h\<in>H. HEADER_SIZE \<le> h \<and> (h - HEADER_SIZE, ALLOCATED) \<in> set (offs CONTROL_FIELDS_SIZE bs)))"

section \<open>Basic facts about the accessors\<close>

lemmas field_defs = TOP_STATUS_def TOP_SIZE_def PAYLOAD_SIZE_def BLOCK_SIZE_def
  BOTTOM_SIZE_def BOTTOM_STATUS_def set_TOP_STATUS_def set_TOP_SIZE_def set_BOTTOM_SIZE_def
  set_BOTTOM_STATUS_def set_TOP_STATUS_OF_NEXT_BLOCK_def set_TOP_SIZE_OF_NEXT_BLOCK_def

lemma init_nth:
  "length a = BYTE_COUNT \<Longrightarrow> simple_init a ! i =
     (if i = 0 \<or> i = 3 \<or> i = 252 \<or> i = 255 then ALLOCATED
      else if i = 5 \<or> i = 250 then 244
      else if i = 1 \<or> i = 2 \<or> i = 4 \<or> i = 251 \<or> i = 253 \<or> i = 254 then 0
      else a ! i)"
  by (simp add: simple_init_def nth_list_update)

lemma print_blocks_from_step:
  assumes "a ! p = st" "a ! (p + 1) = sz" "a ! (p + unat sz + 2) = bz"
    "a ! (p + unat sz + 3) = bs" "p + unat sz + 3 < BYTE_COUNT" "q = p + unat sz + 4"
  shows "print_blocks_from a p =
    do { rest \<leftarrow> print_blocks_from a q;
         Some (\<lparr>offset = p, top_status = st, top_size = sz, bottom_size = bz,
                 bottom_status = bs\<rparr> # rest) }"
  using assms by (subst print_blocks_from.simps) (simp add: field_defs rd_def add.assoc)

lemma print_blocks_from_end: "print_blocks_from a BYTE_COUNT = Some []"
  by (subst print_blocks_from.simps) simp


lemma unat_of_nat_byte: "n \<le> unat (w :: byte) \<Longrightarrow> unat (of_nat n :: byte) = n"
  by (rule le_unat_uoi)

section \<open>One pass of the allocation loop\<close>

lemma alloc_loop_end: "\<not> p < BYTE_COUNT \<Longrightarrow> simple_allocate_loop a n p = Some (a, NULL)"
  by (subst simple_allocate_loop.simps) simp

lemma alloc_loop_fault: "p = 255 \<Longrightarrow> simple_allocate_loop a n p = None"
  by (subst simple_allocate_loop.simps) (simp add: field_defs rd_def)

lemma alloc_loop_skip:
  "p + 1 < BYTE_COUNT \<Longrightarrow> \<not> (a ! p = FREE \<and> n \<le> unat (a ! (p + 1))) \<Longrightarrow>
   simple_allocate_loop a n p = simple_allocate_loop a n (p + unat (a ! (p + 1)) + 4)"
  by (subst simple_allocate_loop.simps) (auto simp add: field_defs rd_def)

lemma alloc_loop_whole:
  assumes "p + 1 < BYTE_COUNT" "a ! p = FREE" "n \<le> unat (a ! (p + 1))"
    "unat (a ! (p + 1)) - n < MIN_BLOCK_SIZE"
  shows "simple_allocate_loop a n p =
    (if p + unat (a ! (p + 1)) + 3 < BYTE_COUNT then Some (consume_whole a p, Ptr (p + 2)) else None)"
  using assms
  by (subst simple_allocate_loop.simps) (auto simp add: field_defs rd_def wr_def consume_whole_def)

lemma alloc_loop_split:
  assumes "length a = BYTE_COUNT" "p + 1 < BYTE_COUNT" "a ! p = FREE" "n \<le> unat (a ! (p + 1))"
    "\<not> unat (a ! (p + 1)) - n < MIN_BLOCK_SIZE"
  shows "simple_allocate_loop a n p =
    (if p + unat (a ! (p + 1)) + 2 < BYTE_COUNT then Some (split_block a p n, Ptr (p + 2)) else None)"
proof -
  have n: "unat (of_nat n :: byte) = n"
    using assms(4) by (rule unat_of_nat_byte)
  show ?thesis
    using assms n
    by (subst simple_allocate_loop.simps)
       (auto simp add: field_defs rd_def wr_def split_block_def Let_def)
qed

text \<open>
  Whatever the array holds, the loop either returns \<open>NULL\<close> and the array as it was,
  or a handle to a block that was free and large enough, allocated as above.
\<close>

lemma alloc_loop_result:
  assumes len: "length a = BYTE_COUNT"
  shows "simple_allocate_loop a n p = Some (a', r) \<Longrightarrow>
    (r = NULL \<and> a' = a) \<or> (\<exists>q\<ge>p. r = Ptr (q + 2) \<and> allocated_at a n q a')"
proof (induction "BYTE_COUNT - p" arbitrary: p rule: less_induct)
  case less
  note res = less.prems
  show ?case
  proof (cases "p < BYTE_COUNT")
    case False
    with res show ?thesis by (simp add: alloc_loop_end)
  next
    case inb: True
    show ?thesis
    proof (cases "p = 255")
      case True
      with res show ?thesis by (simp add: alloc_loop_fault)
    next
      case False
      with inb have p1: "p + 1 < BYTE_COUNT" by simp
      show ?thesis
      proof (cases "a ! p = FREE \<and> n \<le> unat (a ! (p + 1))")
        case False
        let ?p' = "p + unat (a ! (p + 1)) + 4"
        from res alloc_loop_skip [OF p1 False]
        have "simple_allocate_loop a n ?p' = Some (a', r)" by simp
        moreover have "BYTE_COUNT - ?p' < BYTE_COUNT - p" using inb by simp
        ultimately have "(r = NULL \<and> a' = a) \<or> (\<exists>q\<ge>?p'. r = Ptr (q + 2) \<and> allocated_at a n q a')"
          by (rule less.hyps [rotated])
        then show ?thesis
          by (elim disjE exE conjE) (simp, metis le_add1 le_trans add.assoc)
      next
        case found: True
        then have f1: "a ! p = FREE" and f2: "n \<le> unat (a ! (p + 1))" by simp_all
        show ?thesis
        proof (cases "unat (a ! (p + 1)) - n < MIN_BLOCK_SIZE")
          case True
          from res alloc_loop_whole [OF p1 f1 f2 True]
          have "p + unat (a ! (p + 1)) + 3 < BYTE_COUNT \<and> a' = consume_whole a p \<and> r = Ptr (p + 2)"
            by (simp split: if_splits)
          with found True p1 have "r = Ptr (p + 2) \<and> allocated_at a n p a'"
            by (simp add: allocated_at_def)
          then show ?thesis by blast
        next
          case False
          from res alloc_loop_split [OF len p1 f1 f2 False]
          have "p + unat (a ! (p + 1)) + 2 < BYTE_COUNT \<and> a' = split_block a p n \<and> r = Ptr (p + 2)"
            by (simp split: if_splits)
          with found False p1 have "r = Ptr (p + 2) \<and> allocated_at a n p a'"
            by (simp add: allocated_at_def)
          then show ?thesis by blast
        qed
      qed
    qed
  qed
qed

lemma allocate_result:
  assumes "length a = BYTE_COUNT" "simple_allocate a n = Some (a', r)"
  shows "(r = NULL \<and> a' = a) \<or> (\<exists>q. r = Ptr (q + 2) \<and> allocated_at a n q a')"
proof (cases "BYTE_COUNT - CONTROL_FIELDS_SIZE < n")
  case True
  with assms(2) show ?thesis by (simp add: simple_allocate_def)
next
  case False
  with assms(2) have "simple_allocate_loop a n 0 = Some (a', r)"
    by (simp add: simple_allocate_def)
  from alloc_loop_result [OF assms(1) this] show ?thesis by blast
qed

lemma allocated_at_length: "allocated_at a n q a' \<Longrightarrow> length a' = length a"
  by (auto simp: allocated_at_def consume_whole_def split_block_def Let_def split: if_splits)

lemma allocated_at_frame:
  "allocated_at a n q a' \<Longrightarrow> i < q \<or> q + unat (a ! (q + 1)) + 4 \<le> i \<Longrightarrow> a' ! i = a ! i"
  by (auto simp: allocated_at_def consume_whole_def split_block_def Let_def split: if_splits)

lemma allocated_at_head:
  assumes "length a = BYTE_COUNT" "allocated_at a n q a'"
  shows "a' ! q = ALLOCATED" "n \<le> unat (a' ! (q + 1))" "unat (a' ! (q + 1)) \<le> n + 5"
    "q + unat (a' ! (q + 1)) + CONTROL_FIELDS_SIZE \<le> BYTE_COUNT"
proof -
  have n: "unat (of_nat n :: byte) = n"
    using assms(2) by (auto simp: allocated_at_def intro: unat_of_nat_byte)
  show "a' ! q = ALLOCATED" "n \<le> unat (a' ! (q + 1))" "unat (a' ! (q + 1)) \<le> n + 5"
    "q + unat (a' ! (q + 1)) + CONTROL_FIELDS_SIZE \<le> BYTE_COUNT"
    using assms n
    by (auto simp: allocated_at_def consume_whole_def split_block_def Let_def nth_list_update
        split: if_splits)
qed

section \<open>Block layouts\<close>

lemma span_append [simp]: "span (xs @ ys) = span xs + span ys"
  by (induction xs) auto

lemma seg_append: "seg a p (xs @ ys) = (seg a p xs \<and> seg a (p + span xs) ys)"
  by (induction xs arbitrary: p) (auto simp: add.assoc)

lemma offs_append: "offs p (xs @ ys) = offs p xs @ offs (p + span xs) ys"
  by (induction xs arbitrary: p) (auto simp: add.assoc)

lemma infos_append: "infos p (xs @ ys) = infos p xs @ infos (p + span xs) ys"
  by (induction xs arbitrary: p) (auto simp: add.assoc)

lemma span_ge: "ts \<noteq> [] \<Longrightarrow> 4 \<le> span ts"
  by (cases ts) auto

lemma seg_cong:
  "(\<And>i. p \<le> i \<Longrightarrow> i < p + span ts \<Longrightarrow> a' ! i = a ! i) \<Longrightarrow> seg a' p ts = seg a p ts"
proof (induction ts arbitrary: p)
  case Nil
  show ?case by simp
next
  case (Cons t ts)
  have "seg a' (p + unat (snd t) + 4) ts = seg a (p + unat (snd t) + 4) ts"
    by (rule Cons.IH) (simp add: Cons.prems)
  moreover have "a' ! p = a ! p" "a' ! (p + 1) = a ! (p + 1)"
    "a' ! (p + unat (snd t) + 2) = a ! (p + unat (snd t) + 2)"
    "a' ! (p + unat (snd t) + 3) = a ! (p + unat (snd t) + 3)"
    by (simp_all add: Cons.prems)
  ultimately show ?case by simp
qed

lemma offs_split:
  "(q, st) \<in> set (offs p ts) \<Longrightarrow> \<exists>pre sz post. ts = pre @ (st, sz) # post \<and> q = p + span pre"
proof (induction ts arbitrary: p)
  case Nil
  then show ?case by simp
next
  case (Cons t ts)
  show ?case
  proof (cases "(q, st) = (p, fst t)")
    case True
    then have "t # ts = [] @ (st, snd t) # ts \<and> q = p + span []" by simp
    then show ?thesis by blast
  next
    case False
    with Cons.prems have "(q, st) \<in> set (offs (p + unat (snd t) + 4) ts)" by auto
    from Cons.IH [OF this] obtain pre sz post
      where "ts = pre @ (st, sz) # post" "q = p + unat (snd t) + 4 + span pre" by blast
    then have "t # ts = (t # pre) @ (st, sz) # post \<and> q = p + span (t # pre)" by simp
    then show ?thesis by blast
  qed
qed

lemma offs_status: "(q, st) \<in> set (offs p ts) \<Longrightarrow> st \<in> fst ` set ts"
  by (induction ts arbitrary: p) auto

lemma seg_last_status:
  "seg a p frees \<Longrightarrow> frees \<noteq> [] \<Longrightarrow> \<forall>f\<in>set frees. fst f = FREE \<Longrightarrow>
   a ! (p + span frees - 1) = FREE"
proof (induction frees arbitrary: p)
  case Nil
  then show ?case by simp
next
  case (Cons f frees)
  show ?case
  proof (cases "frees = []")
    case True
    with Cons.prems show ?thesis by (simp add: ac_simps)
  next
    case False
    from Cons.prems have "seg a (p + unat (snd f) + 4) frees" "\<forall>f\<in>set frees. fst f = FREE"
      by simp_all
    from Cons.IH [OF this(1) False this(2)] span_ge [OF False] show ?thesis
      by (simp add: add.assoc)
  qed
qed

lemma print_blocks_from_seg:
  "seg a p ts \<Longrightarrow> p + span ts = BYTE_COUNT \<Longrightarrow> print_blocks_from a p = Some (infos p ts)"
proof (induction ts arbitrary: p)
  case Nil
  then show ?case by (simp add: print_blocks_from_end)
next
  case (Cons t ts)
  let ?q = "p + unat (snd t) + 4"
  from Cons.prems have "seg a ?q ts" "?q + span ts = BYTE_COUNT" by simp_all
  then have rest: "print_blocks_from a ?q = Some (infos ?q ts)" by (rule Cons.IH)
  have "print_blocks_from a p =
    do { rest \<leftarrow> print_blocks_from a ?q;
         Some (\<lparr>offset = p, top_status = fst t, top_size = snd t, bottom_size = snd t,
                 bottom_status = fst t\<rparr> # rest) }"
    using Cons.prems by (intro print_blocks_from_step) simp_all
  with rest show ?case by simp
qed

lemma infos_tags_agree: "list_all tags_agree (infos p ts)"
  by (induction ts arbitrary: p) (auto simp: tags_agree_def)

lemma infos_block_size: "sum_list (map block_size (infos p ts)) = span ts"
  by (induction ts arbitrary: p) (auto simp: block_size_def)

lemma infos_contiguous: "p + span ts = BYTE_COUNT \<Longrightarrow> contiguous_from p (infos p ts)"
  by (induction ts arbitrary: p) (auto simp: block_size_def add.assoc)

lemma infos_status: "b \<in> set (infos p ts) \<Longrightarrow> \<exists>t\<in>set ts. top_status b = fst t"
  by (induction ts arbitrary: p) auto

lemma span_carve: "n \<le> unat sz \<Longrightarrow> span (carve n sz) = unat sz + 4"
proof -
  assume n: "n \<le> unat sz"
  have a: "unat (of_nat n :: byte) = n" using n by (rule unat_of_nat_byte)
  have "unat sz - n - 4 \<le> unat sz" by simp
  then have b: "unat (of_nat (unat sz - n - 4) :: byte) = unat sz - n - 4"
    by (rule unat_of_nat_byte)
  show ?thesis
  proof (cases "unat sz - n < MIN_BLOCK_SIZE")
    case True
    then show ?thesis by (simp add: carve_def)
  next
    case False
    with n a b show ?thesis by (simp add: carve_def)
  qed
qed

lemma infos_carve:
  "n \<le> unat sz \<Longrightarrow> infos q (carve n sz) =
     carved n \<lparr>offset = q, top_status = FREE, top_size = sz, bottom_size = sz, bottom_status = FREE\<rparr>"
proof -
  assume n: "n \<le> unat sz"
  have a: "unat (of_nat n :: byte) = n" using n by (rule unat_of_nat_byte)
  show ?thesis
  proof (cases "unat sz - n < MIN_BLOCK_SIZE")
    case True
    then show ?thesis by (simp add: carve_def carved_def)
  next
    case False
    with n a show ?thesis by (simp add: carve_def carved_def)
  qed
qed

section \<open>Allocation on a layout\<close>

lemma alloc_loop_seg:
  assumes len: "length a = BYTE_COUNT"
  shows "seg a p ts \<Longrightarrow> p + span ts = BYTE_COUNT \<Longrightarrow>
    (\<exists>pre sz post a'. ts = pre @ (FREE, sz) # post \<and> n \<le> unat sz \<and>
        simple_allocate_loop a n p = Some (a', Ptr (p + span pre + 2)) \<and>
        allocated_at a n (p + span pre) a') \<or>
    ((\<forall>t\<in>set ts. \<not> (fst t = FREE \<and> n \<le> unat (snd t))) \<and>
        simple_allocate_loop a n p = Some (a, NULL))"
proof (induction ts arbitrary: p)
  case Nil
  then show ?case by (simp add: alloc_loop_end)
next
  case (Cons t ts)
  let ?q = "p + unat (snd t) + 4"
  from Cons.prems have hd: "a ! p = fst t" "a ! (p + 1) = snd t"
    and tl: "seg a ?q ts" "?q + span ts = BYTE_COUNT" by simp_all
  from tl(2) have p1: "p + 1 < BYTE_COUNT" and inb: "p + unat (snd t) + 3 < BYTE_COUNT" by simp_all
  show ?case
  proof (cases "fst t = FREE \<and> n \<le> unat (snd t)")
    case True
    then have f1: "a ! p = FREE" and f2: "n \<le> unat (a ! (p + 1))" using hd by simp_all
    have "\<exists>a'. simple_allocate_loop a n p = Some (a', Ptr (p + 2)) \<and> allocated_at a n p a'"
    proof (cases "unat (a ! (p + 1)) - n < MIN_BLOCK_SIZE")
      case True
      from alloc_loop_whole [OF p1 f1 f2 True] inb hd
      have "simple_allocate_loop a n p = Some (consume_whole a p, Ptr (p + 2))" by simp
      moreover have "allocated_at a n p (consume_whole a p)"
        using True f1 f2 p1 inb hd by (simp add: allocated_at_def)
      ultimately show ?thesis by blast
    next
      case False
      from alloc_loop_split [OF len p1 f1 f2 False] inb hd
      have "simple_allocate_loop a n p = Some (split_block a p n, Ptr (p + 2))" by simp
      moreover have "allocated_at a n p (split_block a p n)"
        using False f1 f2 p1 inb hd by (simp add: allocated_at_def)
      ultimately show ?thesis by blast
    qed
    then obtain a' where "simple_allocate_loop a n p = Some (a', Ptr (p + 2))"
      "allocated_at a n p a'" by blast
    with True have "t # ts = [] @ (FREE, snd t) # ts \<and> n \<le> unat (snd t) \<and>
        simple_allocate_loop a n p = Some (a', Ptr (p + span [] + 2)) \<and>
        allocated_at a n (p + span []) a'"
      by (cases t) simp
    then show ?thesis by blast
  next
    case False
    with hd have "\<not> (a ! p = FREE \<and> n \<le> unat (a ! (p + 1)))" by simp
    from alloc_loop_skip [OF p1 this] hd
    have skip: "simple_allocate_loop a n p = simple_allocate_loop a n ?q" by simp
    from Cons.IH [OF tl] show ?thesis
    proof
      assume "\<exists>pre sz post a'. ts = pre @ (FREE, sz) # post \<and> n \<le> unat sz \<and>
        simple_allocate_loop a n ?q = Some (a', Ptr (?q + span pre + 2)) \<and>
        allocated_at a n (?q + span pre) a'"
      then obtain pre sz post a' where r: "ts = pre @ (FREE, sz) # post" "n \<le> unat sz"
        "simple_allocate_loop a n ?q = Some (a', Ptr (?q + span pre + 2))"
        "allocated_at a n (?q + span pre) a'" by blast
      have e: "?q + span pre = p + span (t # pre)" by simp
      from r skip have "t # ts = (t # pre) @ (FREE, sz) # post \<and> n \<le> unat sz \<and>
        simple_allocate_loop a n p = Some (a', Ptr (p + span (t # pre) + 2)) \<and>
        allocated_at a n (p + span (t # pre)) a'"
        unfolding e by simp
      then show ?thesis by blast
    next
      assume "(\<forall>t\<in>set ts. \<not> (fst t = FREE \<and> n \<le> unat (snd t))) \<and>
        simple_allocate_loop a n ?q = Some (a, NULL)"
      with False skip show ?thesis by simp
    qed
  qed
qed

lemma allocated_at_block:
  assumes len: "length a = BYTE_COUNT"
    and hd: "a ! q = FREE" "a ! (q + 1) = sz" "a ! (q + unat sz + 2) = sz"
      "a ! (q + unat sz + 3) = FREE"
    and al: "allocated_at a n q a'"
  shows "seg a' q (carve n sz)"
proof -
  from al hd have n: "n \<le> unat sz" by (simp add: allocated_at_def)
  have un: "unat (of_nat n :: byte) = n" using n by (rule unat_of_nat_byte)
  have "unat sz - n - 4 \<le> unat sz" by simp
  then have ur: "unat (of_nat (unat sz - n - 4) :: byte) = unat sz - n - 4"
    by (rule unat_of_nat_byte)
  show ?thesis
  proof (cases "unat sz - n < MIN_BLOCK_SIZE")
    case True
    with al hd have "q + unat sz + 3 < BYTE_COUNT" "a' = consume_whole a q"
      by (simp_all add: allocated_at_def)
    with True hd len show ?thesis
      by (simp add: carve_def consume_whole_def nth_list_update)
  next
    case False
    with al hd have "q + unat sz + 2 < BYTE_COUNT" "a' = split_block a q n"
      by (simp_all add: allocated_at_def)
    with False hd len n un ur show ?thesis
      by (simp add: carve_def split_block_def Let_def nth_list_update)
  qed
qed

lemma allocated_at_seg:
  assumes len: "length a = BYTE_COUNT"
    and sg: "seg a p (pre @ (FREE, sz) # post)"
    and al: "allocated_at a n (p + span pre) a'"
  shows "seg a' p (pre @ carve n sz @ post)"
proof -
  define q where "q = p + span pre"
  from sg have s1: "seg a p pre" and hd: "a ! q = FREE" "a ! (q + 1) = sz"
    "a ! (q + unat sz + 2) = sz" "a ! (q + unat sz + 3) = FREE"
    and s3: "seg a (q + unat sz + 4) post"
    by (simp_all add: seg_append q_def)
  from al have al': "allocated_at a n q a'" by (simp add: q_def)
  from al' hd have n: "n \<le> unat sz" by (simp add: allocated_at_def)
  have fr: "\<And>i. i < q \<or> q + unat sz + 4 \<le> i \<Longrightarrow> a' ! i = a ! i"
    using allocated_at_frame [OF al'] hd by simp
  have "seg a' p pre = seg a p pre" by (rule seg_cong) (simp add: fr q_def)
  with s1 have p1: "seg a' p pre" by simp
  have "seg a' (q + unat sz + 4) post = seg a (q + unat sz + 4) post"
    by (rule seg_cong) (simp add: fr)
  with s3 have p3: "seg a' (q + unat sz + 4) post" by simp
  have p2: "seg a' q (carve n sz)"
    using len hd al' by (rule allocated_at_block)
  from p1 p2 p3 show ?thesis
    by (simp add: seg_append span_carve [OF n] add.assoc q_def)
qed

section \<open>Release on a layout\<close>

text \<open>
  The second loop of \<open>simple_release\<close> adds up the free blocks that follow the released
  one and stops at the first block that is not free.
\<close>

lemma release_right_seg:
  assumes fr: "fst t' \<noteq> FREE"
  shows "seg a (q + t + 4) (frees @ [t']) \<Longrightarrow> \<forall>f\<in>set frees. fst f = FREE \<Longrightarrow>
    q + t + 4 + span (frees @ [t']) \<le> BYTE_COUNT \<Longrightarrow>
    release_right_loop a q t = Some (t + span frees)"
proof (induction frees arbitrary: t)
  case Nil
  then have "a ! (q + t + 4) = fst t'" "q + t + 4 < BYTE_COUNT" by simp_all
  with fr show ?case
    by (subst release_right_loop.simps) (simp add: rd_def)
next
  case (Cons f frees)
  let ?t = "unat (snd f) + t + 4"
  from Cons.prems have hd: "a ! (q + t + 4) = FREE" "a ! (q + t + 4 + 1) = snd f"
    and inb: "q + t + 4 + 1 < BYTE_COUNT"
    and tl: "seg a (q + ?t + 4) (frees @ [t'])" "\<forall>f\<in>set frees. fst f = FREE"
      "q + ?t + 4 + span (frees @ [t']) \<le> BYTE_COUNT"
    by (simp_all add: add.assoc add.left_commute)
  have "release_right_loop a q ?t = Some (?t + span frees)"
    using tl by (rule Cons.IH)
  moreover have "release_right_loop a q t = release_right_loop a q ?t"
    using hd inb by (subst release_right_loop.simps) (simp add: rd_def add.assoc add.left_commute)
  ultimately show ?case by (simp add: add.assoc add.left_commute)
qed

lemma release_left_skipped:
  "release_left_loop a block_ptr (Ptr l) t_size = Some (block_ptr, Ptr l, t_size)"
  by (simp add: release_left_loop.simps)

lemma simple_release_eq:
  assumes len: "length a = BYTE_COUNT" and q: "1 \<le> q"
    and inb: "q + unat (a ! (q + 1)) + 3 < BYTE_COUNT"
    and right: "release_right_loop (a[q := FREE, q + unat (a ! (q + 1)) + 3 := FREE]) q
        (unat (a ! (q + 1))) = Some t"
    and inb': "q + unat (of_nat t :: byte) + 2 < BYTE_COUNT"
  shows "simple_release a (Ptr (q + 2)) = Some (released a q t)"
  using assms
  by (simp add: simple_release_def ptr_sub_def field_defs rd_def wr_def release_left_skipped
      released_def)

lemma release_seg:
  assumes len: "length a = BYTE_COUNT"
    and sg: "seg a p (pre @ (st, sz) # frees @ t' # rest)"
    and tot: "p + span (pre @ (st, sz) # frees @ t' # rest) \<le> BYTE_COUNT"
    and fr: "\<forall>f\<in>set frees. fst f = FREE" and nf: "fst t' \<noteq> FREE"
    and q1: "1 \<le> p + span pre"
  shows "simple_release a (Ptr (p + span pre + 2)) =
      Some (released a (p + span pre) (unat sz + span frees)) \<and>
    seg (released a (p + span pre) (unat sz + span frees)) p
      (pre @ (FREE, of_nat (unat sz + span frees)) # t' # rest) \<and>
    unat (of_nat (unat sz + span frees) :: byte) = unat sz + span frees"
proof -
  define q where "q = p + span pre"
  define t where "t = unat sz + span frees"
  define a2 where "a2 = a[q := FREE, q + unat sz + 3 := FREE]"
  define a' where "a' = released a q t"
  define us where "us = t' # rest"
  have e: "q + unat sz + 4 + span frees = q + t + 4" by (simp add: t_def)
  from sg have s1: "seg a p pre" and hd: "a ! q = st" "a ! (q + 1) = sz"
    and s3: "seg a (q + unat sz + 4) frees"
    and s34: "seg a (q + unat sz + 4) (frees @ [t'])"
    by (simp_all add: seg_append q_def add.assoc)
  from sg have "seg a (q + unat sz + 4 + span frees) us"
    unfolding us_def q_def by (simp only: seg_append seg.simps span.simps fst_conv snd_conv add.assoc)
  then have s4: "seg a (q + t + 4) us" unfolding e .
  from tot have bound: "q + t + 8 + unat (snd t') + span rest \<le> BYTE_COUNT"
    by (simp add: q_def t_def add.assoc)
  then have t256: "t < 256" by simp
  then have ut: "unat (of_nat t :: byte) = t" by (simp add: unat_of_nat)
  have "seg a2 (q + unat sz + 4) (frees @ [t']) = seg a (q + unat sz + 4) (frees @ [t'])"
    by (rule seg_cong) (simp add: a2_def)
  with s34 have "seg a2 (q + unat sz + 4) (frees @ [t'])" by simp
  moreover have "q + unat sz + 4 + span (frees @ [t']) \<le> BYTE_COUNT"
    using bound by (simp add: t_def)
  ultimately have "release_right_loop a2 q (unat sz) = Some (unat sz + span frees)"
    using fr by (intro release_right_seg [OF nf]) simp_all
  then have right: "release_right_loop (a[q := FREE, q + unat (a ! (q + 1)) + 3 := FREE]) q
        (unat (a ! (q + 1))) = Some t"
    using hd by (simp add: a2_def t_def)
  have inb: "q + unat (a ! (q + 1)) + 3 < BYTE_COUNT"
    using bound hd by (simp add: t_def)
  have inb': "q + unat (of_nat t :: byte) + 2 < BYTE_COUNT"
    using bound ut by simp
  have rel: "simple_release a (Ptr (q + 2)) = Some a'"
    using q1 unfolding a'_def q_def [symmetric]
    by (intro simple_release_eq [OF len _ inb right inb']) simp
  have a'_eq: "a' = a[q := FREE, q + unat sz + 3 := FREE, q + 1 := of_nat t, q + t + 2 := of_nat t]"
    using hd by (simp add: a'_def released_def ut)
  have "seg a' p pre = seg a p pre"
    by (rule seg_cong) (simp add: a'_eq q_def)
  with s1 have r1: "seg a' p pre" by simp
  have "seg a' (q + t + 4) us = seg a (q + t + 4) us"
    by (rule seg_cong) (simp add: a'_eq t_def)
  with s4 have r3: "seg a' (q + t + 4) us" by simp
  have tail: "a' ! (q + t + 3) = FREE"
  proof (cases "frees = []")
    case True
    with bound len show ?thesis by (simp add: a'_eq t_def nth_list_update)
  next
    case False
    have "q + unat sz + 4 + span frees - 1 = q + t + 3"
      using span_ge [OF False] by (simp add: t_def)
    with seg_last_status [OF s3 False fr]
    have "a ! (q + t + 3) = FREE" by (simp only:)
    with span_ge [OF False] show ?thesis by (simp add: a'_eq t_def nth_list_update)
  qed
  have r2: "a' ! q = FREE" "a' ! (q + 1) = of_nat t" "a' ! (q + t + 2) = of_nat t"
    using bound len by (simp_all add: a'_eq nth_list_update)
  from r1 r2 tail r3 ut have "seg a' p (pre @ (FREE, of_nat t) # us)"
    by (simp add: seg_append q_def [symmetric])
  then have "seg a' p (pre @ (FREE, of_nat t) # t' # rest)" by (simp only: us_def)
  with rel ut show ?thesis
    by (simp add: a'_def q_def t_def)
qed

section \<open>Every reachable state is well formed\<close>

lemma layout_init: "length a = BYTE_COUNT \<Longrightarrow> layout (simple_init a) [(FREE, 244)]"
  by (simp add: layout_def init_nth) (simp add: simple_init_def)

lemma well_formed_init: "length a = BYTE_COUNT \<Longrightarrow> well_formed (simple_init a) {}"
  unfolding well_formed_def using layout_init by blast

lemma between_sentinels:
  assumes "s # bs @ [s] = pre @ x # post" "x \<noteq> s"
  shows "\<exists>pre' post'. pre = s # pre' \<and> post = post' @ [s] \<and> bs = pre' @ x # post'"
proof (cases pre)
  case Nil
  with assms show ?thesis by simp
next
  case (Cons y pre')
  with assms have y: "y = s" and eq: "bs @ [s] = pre' @ x # post" by auto
  show ?thesis
  proof (cases post rule: rev_cases)
    case Nil
    with eq assms(2) show ?thesis by simp
  next
    case (snoc post' z)
    with eq have "bs @ [s] = (pre' @ x # post') @ [z]" by simp
    then have "bs = pre' @ x # post'" "z = s" by simp_all
    with Cons y snoc show ?thesis by simp
  qed
qed

lemma free_run:
  fixes post :: "tag list"
  shows "\<exists>frees post2. post = frees @ post2 \<and> (\<forall>f\<in>set frees. fst f = FREE) \<and>
     (post2 = [] \<or> fst (hd post2) \<noteq> FREE)"
proof -
  let ?P = "\<lambda>f :: tag. fst f = FREE"
  have "post = takeWhile ?P post @ dropWhile ?P post" by simp
  moreover have "\<forall>f\<in>set (takeWhile ?P post). fst f = FREE"
    by (auto dest: set_takeWhileD)
  moreover have "dropWhile ?P post = [] \<or> fst (hd (dropWhile ?P post)) \<noteq> FREE"
    using hd_dropWhile [of ?P post] by blast
  ultimately show ?thesis by blast
qed

lemma layout_payload_bound:
  assumes "layout a bs" "t \<in> set (sentinel # bs @ [sentinel])" "fst t = FREE"
  shows "unat (snd t) \<le> 244"
proof -
  from assms(2,3) have "t \<in> set bs" by auto
  then obtain xs ys where "bs = xs @ t # ys" by (auto simp: in_set_conv_decomp)
  with assms(1) show ?thesis by (simp add: layout_def)
qed

lemma layout_allocate:
  assumes lay: "layout a bs"
  shows "((\<forall>t\<in>set bs. \<not> (fst t = FREE \<and> n \<le> unat (snd t))) \<and>
       simple_allocate a n = Some (a, NULL)) \<or>
    (\<exists>pre sz post a'. bs = pre @ (FREE, sz) # post \<and> n \<le> unat sz \<and>
       simple_allocate a n = Some (a', Ptr (4 + span pre + 2)) \<and>
       layout a' (pre @ carve n sz @ post))"
proof (cases "BYTE_COUNT - CONTROL_FIELDS_SIZE < n")
  case True
  then have "simple_allocate a n = Some (a, NULL)" by (simp add: simple_allocate_def)
  moreover have "\<forall>t\<in>set bs. \<not> (fst t = FREE \<and> n \<le> unat (snd t))"
    using layout_payload_bound [OF lay] True by fastforce
  ultimately show ?thesis by blast
next
  case False
  then have sa: "simple_allocate a n = simple_allocate_loop a n 0"
    by (simp add: simple_allocate_def)
  define ts where "ts = sentinel # bs @ [sentinel]"
  from lay have len: "length a = BYTE_COUNT" and sg: "seg a 0 ts" and sp: "span bs = 248"
    and tot: "0 + span ts = BYTE_COUNT"
    by (simp_all add: layout_def ts_def)
  from alloc_loop_seg [OF len sg tot, of n] show ?thesis
  proof
    assume "(\<forall>t\<in>set ts. \<not> (fst t = FREE \<and> n \<le> unat (snd t))) \<and>
        simple_allocate_loop a n 0 = Some (a, NULL)"
    with sa show ?thesis by (simp add: ts_def)
  next
    assume "\<exists>pre sz post a'. ts = pre @ (FREE, sz) # post \<and> n \<le> unat sz \<and>
        simple_allocate_loop a n 0 = Some (a', Ptr (0 + span pre + 2)) \<and>
        allocated_at a n (0 + span pre) a'"
    then obtain pre sz post a' where dec: "ts = pre @ (FREE, sz) # post" and n: "n \<le> unat sz"
      and res: "simple_allocate_loop a n 0 = Some (a', Ptr (0 + span pre + 2))"
      and al: "allocated_at a n (0 + span pre) a'" by blast
    from dec have "sentinel # bs @ [sentinel] = pre @ (FREE, sz) # post" by (simp add: ts_def)
    from between_sentinels [OF this] obtain pre' post'
      where pre: "pre = sentinel # pre'" and post: "post = post' @ [sentinel]"
        and bs: "bs = pre' @ (FREE, sz) # post'" by auto
    define bs' where "bs' = pre' @ carve n sz @ post'"
    from sg dec have "seg a 0 (pre @ (FREE, sz) # post)" by simp
    from allocated_at_seg [OF len this al]
    have "seg a' 0 (sentinel # bs' @ [sentinel])" by (simp add: pre post bs'_def)
    moreover have "length a' = BYTE_COUNT" using allocated_at_length [OF al] len by simp
    moreover have "span bs' = 248" using sp n by (simp add: bs bs'_def span_carve)
    ultimately have "layout a' bs'" by (simp add: layout_def)
    moreover from res sa have "simple_allocate a n = Some (a', Ptr (4 + span pre' + 2))"
      by (simp add: pre)
    ultimately show ?thesis using bs n unfolding bs'_def by blast
  qed
qed

lemma well_formed_allocate:
  assumes wf: "well_formed a H"
  shows "simple_allocate a n = Some (a, NULL) \<or>
    (\<exists>a' h. simple_allocate a n = Some (a', Ptr h) \<and> well_formed a' (insert h H))"
proof -
  from wf obtain bs where lay: "layout a bs"
    and hs: "\<forall>h\<in>H. HEADER_SIZE \<le> h \<and> (h - HEADER_SIZE, ALLOCATED) \<in> set (offs 4 bs)"
    unfolding well_formed_def by blast
  from layout_allocate [OF lay, of n] show ?thesis
  proof
    assume "(\<forall>t\<in>set bs. \<not> (fst t = FREE \<and> n \<le> unat (snd t))) \<and>
       simple_allocate a n = Some (a, NULL)"
    then show ?thesis by simp
  next
    assume "\<exists>pre sz post a'. bs = pre @ (FREE, sz) # post \<and> n \<le> unat sz \<and>
       simple_allocate a n = Some (a', Ptr (4 + span pre + 2)) \<and>
       layout a' (pre @ carve n sz @ post)"
    then obtain pre sz post a' where bs: "bs = pre @ (FREE, sz) # post" and n: "n \<le> unat sz"
      and res: "simple_allocate a n = Some (a', Ptr (4 + span pre + 2))"
      and lay': "layout a' (pre @ carve n sz @ post)" by blast
    define q where "q = 4 + span pre"
    have old: "offs 4 bs = offs 4 pre @ (q, FREE) # offs (q + unat sz + 4) post"
      by (simp add: bs offs_append q_def)
    have new: "offs 4 (pre @ carve n sz @ post) =
        offs 4 pre @ offs q (carve n sz) @ offs (q + unat sz + 4) post"
      using n by (simp add: offs_append q_def span_carve add.assoc)
    have hd: "(q, ALLOCATED) \<in> set (offs q (carve n sz))" by (simp add: carve_def)
    have "\<forall>h\<in>insert (q + 2) H. HEADER_SIZE \<le> h \<and>
        (h - HEADER_SIZE, ALLOCATED) \<in> set (offs 4 (pre @ carve n sz @ post))"
      using hs hd unfolding old new by auto
    with lay' have "well_formed a' (insert (q + 2) H)" unfolding well_formed_def by blast
    with res show ?thesis unfolding q_def by blast
  qed
qed

lemma well_formed_release:
  assumes wf: "well_formed a H" and h: "h \<in> H"
  shows "\<exists>a'. simple_release a (Ptr h) = Some a' \<and> well_formed a' (H - {h})"
proof -
  from wf obtain bs where lay: "layout a bs"
    and hs: "\<forall>h\<in>H. HEADER_SIZE \<le> h \<and> (h - HEADER_SIZE, ALLOCATED) \<in> set (offs 4 bs)"
    unfolding well_formed_def by blast
  from lay have len: "length a = BYTE_COUNT" and sg: "seg a 0 (sentinel # bs @ [sentinel])"
    and sp: "span bs = 248"
    by (simp_all add: layout_def)
  from hs h have h2: "2 \<le> h" and "(h - 2, ALLOCATED) \<in> set (offs 4 bs)" by auto
  from offs_split [OF this(2)] obtain pre sz post
    where bs: "bs = pre @ (ALLOCATED, sz) # post" and hq: "h - 2 = 4 + span pre" by blast
  from free_run [of "post @ [sentinel]"] obtain frees post2
    where run: "post @ [sentinel] = frees @ post2" and fr: "\<forall>f\<in>set frees. fst f = FREE"
      and stop: "post2 = [] \<or> fst (hd post2) \<noteq> FREE" by blast
  have "post2 \<noteq> []"
  proof
    assume "post2 = []"
    with run have "sentinel \<in> set frees" by (metis append_Nil2 in_set_conv_decomp)
    with fr show False by auto
  qed
  then obtain post3 where p2: "post2 = post3 @ [sentinel]" and post: "post = frees @ post3"
    using run by (cases post2 rule: rev_cases) (auto simp flip: append_assoc)
  from \<open>post2 \<noteq> []\<close> stop obtain t' rest where tr: "post2 = t' # rest" and nf: "fst t' \<noteq> FREE"
    by (cases post2) auto
  define q where "q = 0 + span (sentinel # pre)"
  define t where "t = unat sz + span frees"
  define bs' where "bs' = pre @ (FREE, of_nat t) # post3"
  have full: "sentinel # bs @ [sentinel] = (sentinel # pre) @ (ALLOCATED, sz) # frees @ t' # rest"
    by (simp add: bs post p2 flip: tr)
  from sg have sg': "seg a 0 ((sentinel # pre) @ (ALLOCATED, sz) # frees @ t' # rest)"
    unfolding full .
  have tot: "0 + span ((sentinel # pre) @ (ALLOCATED, sz) # frees @ t' # rest) \<le> BYTE_COUNT"
    using sp unfolding full [symmetric] by simp
  have q1: "1 \<le> 0 + span (sentinel # pre)" by simp
  from release_seg [OF len sg' tot fr nf q1]
  have rel: "simple_release a (Ptr (q + 2)) = Some (released a q t)"
    and sg'': "seg (released a q t) 0 ((sentinel # pre) @ (FREE, of_nat t) # t' # rest)"
    and ut: "unat (of_nat t :: byte) = t"
    unfolding q_def t_def by blast+
  have hq': "h = q + 2" using hq h2 by (simp add: q_def)
  have "(sentinel # pre) @ (FREE, of_nat t) # t' # rest = sentinel # bs' @ [sentinel]"
    by (simp add: bs'_def p2 flip: tr)
  with sg'' have "seg (released a q t) 0 (sentinel # bs' @ [sentinel])" by simp
  moreover have "length (released a q t) = BYTE_COUNT" using len by (simp add: released_def)
  moreover have "span bs' = 248" using sp ut by (simp add: bs bs'_def post t_def)
  ultimately have lay': "layout (released a q t) bs'" by (simp add: layout_def)
  have old: "offs 4 bs = offs 4 pre @ (q, ALLOCATED) # offs (q + unat sz + 4) frees @
      offs (q + t + 4) post3"
    by (simp add: bs post offs_append q_def t_def ac_simps)
  have new: "offs 4 bs' = offs 4 pre @ (q, FREE) # offs (q + t + 4) post3"
    using ut by (simp add: bs'_def offs_append q_def t_def ac_simps)
  have nofree: "\<And>x. (x, ALLOCATED) \<notin> set (offs (q + unat sz + 4) frees)"
    using fr by (auto dest!: offs_status)
  have "\<forall>k\<in>H - {h}. HEADER_SIZE \<le> k \<and> (k - HEADER_SIZE, ALLOCATED) \<in> set (offs 4 bs')"
  proof
    fix k assume k: "k \<in> H - {h}"
    with hs have k2: "2 \<le> k" and km: "(k - 2, ALLOCATED) \<in> set (offs 4 bs)" by auto
    from k k2 hq' have "k - 2 \<noteq> q" by auto
    with km nofree have "(k - 2, ALLOCATED) \<in> set (offs 4 bs')"
      unfolding old new by auto
    with k2 show "HEADER_SIZE \<le> k \<and> (k - HEADER_SIZE, ALLOCATED) \<in> set (offs 4 bs')" by simp
  qed
  with lay' have "well_formed (released a q t) (H - {h})" unfolding well_formed_def by blast
  with rel hq' show ?thesis by simp
qed

lemma reachable_well_formed: "reachable a H \<Longrightarrow> well_formed a H"
proof (induction rule: reachable.induct)
  case (init a)
  then show ?case by (rule well_formed_init)
next
  case (allocate_ok a H n a' h)
  from well_formed_allocate [OF allocate_ok.IH, of n] allocate_ok.hyps(2)
  show ?case by auto
next
  case (allocate_fail a H n a')
  from well_formed_allocate [OF allocate_fail.IH, of n] allocate_fail.hyps(2) allocate_fail.IH
  show ?case by auto
next
  case (release a H h a')
  from well_formed_release [OF release.IH release.hyps(2)] release.hyps(3)
  show ?case by auto
qed

lemma well_formed_print_blocks:
  assumes "layout a bs"
  shows "print_blocks a = Some (infos 0 (sentinel # bs @ [sentinel]))"
  using assms unfolding print_blocks_def layout_def
  by (intro print_blocks_from_seg) simp_all

text \<open>
  In a reachable state no call runs into undefined behaviour: \<open>simple_allocate\<close>
  returns for every request, and \<open>simple_release\<close> for every outstanding handle.
\<close>

lemma reachable_allocate_returns:
  "reachable a H \<Longrightarrow> \<exists>a' r. simple_allocate a n = Some (a', r)"
  using well_formed_allocate [OF reachable_well_formed, of a H n] by blast

lemma reachable_release_returns:
  "reachable a H \<Longrightarrow> h \<in> H \<Longrightarrow> \<exists>a'. simple_release a (Ptr h) = Some a'"
  using well_formed_release [OF reachable_well_formed, of a H h] by blast

lemma reachable_no_large_block:
  assumes "reachable b H" "244 < n"
  shows "simple_allocate b n = Some (b, NULL)"
proof -
  from assms(1) have "well_formed b H" by (rule reachable_well_formed)
  then obtain bs where lay: "layout b bs" unfolding well_formed_def by blast
  have small: "\<And>t. t \<in> set bs \<Longrightarrow> fst t = FREE \<Longrightarrow> unat (snd t) \<le> 244"
    using layout_payload_bound [OF lay] by simp
  from layout_allocate [OF lay, of n] show ?thesis
  proof
    assume "(\<forall>t\<in>set bs. \<not> (fst t = FREE \<and> n \<le> unat (snd t))) \<and>
       simple_allocate b n = Some (b, NULL)"
    then show ?thesis by simp
  next
    assume "\<exists>pre sz post a'. bs = pre @ (FREE, sz) # post \<and> n \<le> unat sz \<and>
       simple_allocate b n = Some (a', Ptr (4 + span pre + 2)) \<and>
       layout a' (pre @ carve n sz @ post)"
    then obtain pre sz post where "bs = pre @ (FREE, sz) # post" "n \<le> unat sz" by blast
    with small [of "(FREE, sz)"] assms(2) show ?thesis by simp
  qed
qed

text \<open>
  Where the blocks between the sentinels are one single free block, as after
  \<open>simple_init\<close>, an allocation followed by the release of its handle gives that
  single free block back: the second loop of \<open>simple_release\<close> merges the remainder
  of a split, and nothing lies to the left.
\<close>

lemma round_trip_single_free_block:
  assumes lay: "layout a [(FREE, sz)]" and al: "simple_allocate a n = Some (a', Ptr h)"
  shows "\<exists>a''. simple_release a' (Ptr h) = Some a'' \<and> layout a'' [(FREE, sz)]"
proof -
  from layout_allocate [OF lay, of n] al
  obtain pre sz' post where dec: "[(FREE, sz)] = pre @ (FREE, sz') # post"
    and n: "n \<le> unat sz'" and h: "h = 4 + span pre + 2"
    and lay': "layout a' (pre @ carve n sz' @ post)" by auto
  from dec have pre: "pre = []" and post: "post = []" and sz': "sz' = sz"
    by (cases pre; simp)+
  from lay have sp: "unat sz = 244" by (simp add: layout_def)
  from lay' have len: "length a' = BYTE_COUNT" and sg: "seg a' 0 (sentinel # carve n sz @ [sentinel])"
    by (simp_all add: layout_def pre post sz')
  have un: "unat (of_nat n :: byte) = n" using n by (rule unat_of_nat_byte)
  have "unat sz - n - 4 \<le> unat sz" by simp
  then have ur: "unat (of_nat (unat sz - n - 4) :: byte) = unat sz - n - 4"
    by (rule unat_of_nat_byte)
  have nf: "fst sentinel \<noteq> FREE" by simp
  have q1: "1 \<le> 0 + span [sentinel]" by simp
  have "\<exists>t. simple_release a' (Ptr 6) = Some (released a' 4 t) \<and>
      seg (released a' 4 t) 0 (sentinel # [(FREE, sz)] @ [sentinel])"
  proof (cases "unat sz - n < MIN_BLOCK_SIZE")
    case True
    with sg have sg': "seg a' 0 ([sentinel] @ (ALLOCATED, sz) # [] @ sentinel # [])"
      by (simp add: carve_def)
    have tot: "0 + span ([sentinel] @ (ALLOCATED, sz) # [] @ sentinel # []) \<le> BYTE_COUNT"
      using sp by simp
    from release_seg [OF len sg' tot _ nf q1] show ?thesis
      by (simp del: seg.simps) blast
  next
    case False
    define r where "r = unat sz - n - 4"
    from False n sz' have nr: "n + r + 4 = unat sz" by (simp add: r_def)
    from False sg have sg': "seg a' 0 ([sentinel] @ (ALLOCATED, of_nat n) # [(FREE, of_nat r)] @ sentinel # [])"
      by (simp add: carve_def r_def)
    have tot: "0 + span ([sentinel] @ (ALLOCATED, of_nat n) # [(FREE, of_nat r)] @ sentinel # []) \<le> BYTE_COUNT"
      using sp nr un ur by (simp add: r_def)
    have t: "unat (of_nat n :: byte) + span [(FREE, of_nat r :: byte)] = unat sz"
      using nr un ur by (simp add: r_def)
    from release_seg [OF len sg' tot _ nf q1] show ?thesis
      unfolding t by (simp del: seg.simps) blast
  qed
  then obtain t where rel: "simple_release a' (Ptr 6) = Some (released a' 4 t)"
    and sg'': "seg (released a' 4 t) 0 (sentinel # [(FREE, sz)] @ [sentinel])" by blast
  have "length (released a' 4 t) = BYTE_COUNT" using len by (simp add: released_def)
  with sg'' sp have "layout (released a' 4 t) [(FREE, sz)]"
    by (simp add: layout_def del: seg.simps)
  with rel h pre show ?thesis by simp
qed

lemma round_trip_after_init:
  assumes "length a = BYTE_COUNT" "simple_allocate (simple_init a) n = Some (a', Ptr h)"
  shows "\<exists>a''. simple_release a' (Ptr h) = Some a'' \<and>
    print_blocks a'' = print_blocks (simple_init a)"
proof -
  have lay: "layout (simple_init a) [(FREE, 244)]" using assms(1) by (rule layout_init)
  from round_trip_single_free_block [OF lay assms(2)]
  obtain a'' where "simple_release a' (Ptr h) = Some a''" "layout a'' [(FREE, 244)]" by blast
  with well_formed_print_blocks [OF lay] well_formed_print_blocks [OF this(2)]
  show ?thesis by simp
qed

section \<open>The search, block by block\<close>

text \<open>
  A block that is free and large enough ends the search at its offset: the call
  returns a handle to it, or runs out of the array while writing its tags.
\<close>

lemma alloc_loop_found_not_null:
  assumes len: "length b = BYTE_COUNT" and p1: "p + 1 < BYTE_COUNT"
    and f1: "b ! p = FREE" and f2: "n \<le> unat (b ! (p + 1))"
  shows "simple_allocate_loop b n p = None \<or>
    (\<exists>b'. simple_allocate_loop b n p = Some (b', Ptr (p + 2)))"
proof (cases "unat (b ! (p + 1)) - n < MIN_BLOCK_SIZE")
  case True
  from alloc_loop_whole [OF p1 f1 f2 True] show ?thesis by (simp split: if_splits)
next
  case False
  from alloc_loop_split [OF len p1 f1 f2 False] show ?thesis by (simp split: if_splits)
qed

lemma scan_to_4:
  assumes b0: "b ! 0 = ALLOCATED" and b1: "b ! 1 = 0"
  shows "simple_allocate_loop b n 0 = simple_allocate_loop b n 4"
proof -
  have "simple_allocate_loop b n 0 = simple_allocate_loop b n (0 + unat (b ! (0 + 1)) + 4)"
    using b0 by (intro alloc_loop_skip) simp_all
  then show ?thesis using b1 by simp
qed

lemma scan_4_to_252:
  assumes n: "244 < n" and b4: "b ! 4 = FREE" and b5: "b ! 5 = 244"
  shows "simple_allocate_loop b n 4 = simple_allocate_loop b n 252"
proof -
  have e: "b ! (4 + 1) = 244" using b5 by simp
  have "simple_allocate_loop b n 4 = simple_allocate_loop b n (4 + unat (b ! (4 + 1)) + 4)"
  proof (rule alloc_loop_skip)
    show "4 + 1 < BYTE_COUNT" by simp
    show "\<not> (b ! 4 = FREE \<and> n \<le> unat (b ! (4 + 1)))" unfolding e using n by simp
  qed
  then show ?thesis unfolding e by simp
qed

lemma scan_at_252:
  assumes n: "244 < n" and len: "length b = BYTE_COUNT"
  shows "simple_allocate_loop b n 252 =
    (if b ! 252 = FREE \<and> n \<le> unat (b ! 253) then None else Some (b, NULL))"
proof (cases "b ! 252 = FREE \<and> n \<le> unat (b ! 253)")
  case True
  then have f1: "b ! 252 = FREE" and f2: "n \<le> unat (b ! (252 + 1))" by simp_all
  have p1: "(252 :: nat) + 1 < BYTE_COUNT" by simp
  have "simple_allocate_loop b n 252 = None"
  proof (cases "unat (b ! (252 + 1)) - n < MIN_BLOCK_SIZE")
    case True
    from alloc_loop_whole [OF p1 f1 f2 True] f2 n show ?thesis by simp
  next
    case False
    from alloc_loop_split [OF len p1 f1 f2 False] f2 n show ?thesis by simp
  qed
  with True show ?thesis by simp
next
  case False
  then have "\<not> (b ! 252 = FREE \<and> n \<le> unat (b ! (252 + 1)))" by simp
  then have "simple_allocate_loop b n 252 = simple_allocate_loop b n (252 + unat (b ! (252 + 1)) + 4)"
    by (intro alloc_loop_skip) simp_all
  also have "\<dots> = Some (b, NULL)" by (rule alloc_loop_end) simp
  finally show ?thesis using False by simp
qed

section \<open>A request of 0 bytes\<close>

lemma carve_zero_head:
  "\<exists>s rest. carve 0 sz = (ALLOCATED, s) # rest \<and> unat s < MIN_BLOCK_SIZE"
  by (cases "unat sz < MIN_BLOCK_SIZE") (simp_all add: carve_def)

lemma seg_head_fields:
  assumes sg: "seg a p (pre @ (st, s) # rest)" and inb: "p + span pre + unat s + 3 < BYTE_COUNT"
  shows "TOP_STATUS a (p + span pre) = Some st \<and> TOP_SIZE a (p + span pre) = Some s \<and>
    BOTTOM_SIZE a (p + span pre) = Some s \<and> BOTTOM_STATUS a (p + span pre) = Some st"
proof -
  define q where "q = p + span pre"
  from sg have "a ! q = st" "a ! (q + 1) = s" "a ! (q + unat s + 2) = s" "a ! (q + unat s + 3) = st"
    by (simp_all add: seg_append q_def)
  moreover from inb have "q + unat s + 3 < BYTE_COUNT" by (simp add: q_def)
  ultimately show ?thesis
    unfolding q_def [symmetric] by (simp add: field_defs rd_def)
qed

lemma allocate_zero_reachable:
  assumes r: "reachable a H" and pb: "print_blocks a = Some bs"
    and ex: "\<exists>b\<in>set bs. top_status b = FREE"
  shows "\<exists>a' h s. simple_allocate a 0 = Some (a', Ptr h) \<and> HEADER_SIZE \<le> h \<and>
    TOP_STATUS a' (h - HEADER_SIZE) = Some ALLOCATED \<and>
    BOTTOM_STATUS a' (h - HEADER_SIZE) = Some ALLOCATED \<and>
    TOP_SIZE a' (h - HEADER_SIZE) = Some s \<and> BOTTOM_SIZE a' (h - HEADER_SIZE) = Some s \<and>
    unat s < MIN_BLOCK_SIZE"
proof -
  from r have "well_formed a H" by (rule reachable_well_formed)
  then obtain ts where lay: "layout a ts" unfolding well_formed_def by blast
  from well_formed_print_blocks [OF lay] pb
  have "bs = infos 0 (sentinel # ts @ [sentinel])" by simp
  with ex obtain b where "b \<in> set (infos 0 (sentinel # ts @ [sentinel]))" "top_status b = FREE"
    by blast
  from infos_status [OF this(1)] this(2)
  obtain t where "t \<in> set (sentinel # ts @ [sentinel])" "fst t = FREE" by auto
  then have "t \<in> set ts" "fst t = FREE \<and> 0 \<le> unat (snd t)" by auto
  with layout_allocate [OF lay, of 0]
  obtain pre sz post a' where res: "simple_allocate a 0 = Some (a', Ptr (4 + span pre + 2))"
    and lay': "layout a' (pre @ carve 0 sz @ post)" by blast
  from carve_zero_head [of sz] obtain s rest
    where cv: "carve 0 sz = (ALLOCATED, s) # rest" and s: "unat s < MIN_BLOCK_SIZE" by blast
  define us where "us = rest @ post @ [sentinel]"
  define ps where "ps = sentinel # pre"
  have sp: "0 + span ps = 4 + span pre" by (simp add: ps_def)
  from lay' have "seg a' 0 (sentinel # (pre @ carve 0 sz @ post) @ [sentinel])"
    by (simp only: layout_def)
  also have "sentinel # (pre @ carve 0 sz @ post) @ [sentinel] = ps @ (ALLOCATED, s) # us"
    by (simp add: cv us_def ps_def)
  finally have sg: "seg a' 0 (ps @ (ALLOCATED, s) # us)" .
  from lay' cv have "span pre + unat s + 4 \<le> 248" by (simp add: layout_def)
  then have "0 + span ps + unat s + 3 < BYTE_COUNT" by (simp add: ps_def)
  from seg_head_fields [OF sg this]
  have "TOP_STATUS a' (4 + span pre) = Some ALLOCATED \<and> TOP_SIZE a' (4 + span pre) = Some s \<and>
    BOTTOM_SIZE a' (4 + span pre) = Some s \<and> BOTTOM_STATUS a' (4 + span pre) = Some ALLOCATED"
    unfolding sp .
  with res s show ?thesis by (intro exI [of _ a'] exI [of _ "4 + span pre + 2"] exI [of _ s]) simp
qed

lemma allocate_zero_init:
  assumes len: "length c = BYTE_COUNT"
  shows "\<exists>a'. simple_allocate (simple_init c) 0 = Some (a', Ptr 6) \<and>
    print_blocks a' = Some
     [\<lparr>offset = 0, top_status = ALLOCATED, top_size = 0, bottom_size = 0, bottom_status = ALLOCATED\<rparr>,
      \<lparr>offset = 4, top_status = ALLOCATED, top_size = 0, bottom_size = 0, bottom_status = ALLOCATED\<rparr>,
      \<lparr>offset = 8, top_status = FREE, top_size = 240, bottom_size = 240, bottom_status = FREE\<rparr>,
      \<lparr>offset = 252, top_status = ALLOCATED, top_size = 0, bottom_size = 0, bottom_status = ALLOCATED\<rparr>]"
proof -
  have lay: "layout (simple_init c) [(FREE, 244)]" using len by (rule layout_init)
  from layout_allocate [OF lay, of 0]
  obtain pre sz post a' where dec: "[(FREE, 244 :: byte)] = pre @ (FREE, sz) # post"
    and res: "simple_allocate (simple_init c) 0 = Some (a', Ptr (4 + span pre + 2))"
    and lay': "layout a' (pre @ carve 0 sz @ post)" by auto
  from dec have pre: "pre = []" and post: "post = []" and sz: "sz = 244"
    by (cases pre; simp)+
  have cv: "carve 0 (244 :: byte) = [(ALLOCATED, 0), (FREE, 240)]" by (simp add: carve_def)
  from lay' have "layout a' [(ALLOCATED, 0), (FREE, 240)]" by (simp only: pre post sz cv append.simps)
  from well_formed_print_blocks [OF this] res pre show ?thesis by simp
qed

section \<open>Initialisation\<close>

text \<open>
  Claim C7, as amended. After \<open>simple_init\<close> on an array of \<open>BYTE_COUNT\<close> bytes,
  whatever it held before, \<open>print_blocks\<close> finds exactly three blocks: a sentinel at
  offset 0 (ALLOCATED, payload 0), one free block at offset 4 whose payload is
  \<open>BYTE_COUNT\<close> minus three times the control overhead (244), and a sentinel at offset
  252 (ALLOCATED, payload 0); head and tail fields of each block agree.
\<close>

theorem init_blocks:
  "length a = BYTE_COUNT \<Longrightarrow>
   print_blocks (simple_init a) = Some
     [\<lparr>offset = 0, top_status = ALLOCATED, top_size = 0, bottom_size = 0, bottom_status = ALLOCATED\<rparr>,
      \<lparr>offset = 4, top_status = FREE, top_size = of_nat (BYTE_COUNT - 3 * CONTROL_FIELDS_SIZE),
        bottom_size = of_nat (BYTE_COUNT - 3 * CONTROL_FIELDS_SIZE), bottom_status = FREE\<rparr>,
      \<lparr>offset = 252, top_status = ALLOCATED, top_size = 0, bottom_size = 0, bottom_status = ALLOCATED\<rparr>]"
proof -
  assume len: "length a = BYTE_COUNT"
  have s0: "print_blocks_from (simple_init a) 0 =
      do { rest \<leftarrow> print_blocks_from (simple_init a) 4;
           Some (\<lparr>offset = 0, top_status = ALLOCATED, top_size = 0, bottom_size = 0,
                   bottom_status = ALLOCATED\<rparr> # rest) }"
    by (rule print_blocks_from_step) (simp_all add: init_nth [OF len])
  have s4: "print_blocks_from (simple_init a) 4 =
      do { rest \<leftarrow> print_blocks_from (simple_init a) 252;
           Some (\<lparr>offset = 4, top_status = FREE, top_size = 244, bottom_size = 244,
                   bottom_status = FREE\<rparr> # rest) }"
    by (rule print_blocks_from_step) (simp_all add: init_nth [OF len])
  have s252: "print_blocks_from (simple_init a) 252 =
      do { rest \<leftarrow> print_blocks_from (simple_init a) BYTE_COUNT;
           Some (\<lparr>offset = 252, top_status = ALLOCATED, top_size = 0, bottom_size = 0,
                   bottom_status = ALLOCATED\<rparr> # rest) }"
    by (rule print_blocks_from_step) (simp_all add: init_nth [OF len])
  show ?thesis
    by (simp add: print_blocks_def s0 s4 s252 print_blocks_from_end)
qed

theorem init_blocks_witness:
  "length area0 = BYTE_COUNT \<and>
   print_blocks (simple_init area0) = Some
     [\<lparr>offset = 0, top_status = ALLOCATED, top_size = 0, bottom_size = 0, bottom_status = ALLOCATED\<rparr>,
      \<lparr>offset = 4, top_status = FREE, top_size = 244, bottom_size = 244, bottom_status = FREE\<rparr>,
      \<lparr>offset = 252, top_status = ALLOCATED, top_size = 0, bottom_size = 0, bottom_status = ALLOCATED\<rparr>]"
proof -
  have len: "length area0 = BYTE_COUNT" by (simp add: area0_def)
  from init_blocks [OF len] len show ?thesis by simp
qed

text \<open>
  Claim C7 as it is written asks for a free payload of \<open>BYTE_COUNT\<close> minus twice the
  control overhead, that is 248. The three payload sizes after \<open>simple_init\<close> are
  0, 244 and 0.
\<close>

theorem init_free_payload_counterexample:
  "map_option (map top_size) (print_blocks (simple_init area0)) = Some [0, 244, 0] \<and>
   unat (244 :: byte) \<noteq> BYTE_COUNT - 2 * CONTROL_FIELDS_SIZE"
  by code_simp


section \<open>The partition of the arena\<close>

text \<open>
  Claim C3. In every state reached from \<open>simple_init\<close> by calls of \<open>simple_allocate\<close>
  and by calls of \<open>simple_release\<close> on outstanding handles, \<open>print_blocks\<close> walks the
  whole array without fault; in every block it prints, head status equals tail status
  and head size equals tail size; the block sizes (payload plus 4) add up to the
  capacity 256; and the blocks lie one behind the other from offset 0 to the end of the
  array, with no gap and no overlap.
\<close>

theorem reachable_partition:
  "reachable a H \<Longrightarrow>
   \<exists>bs. print_blocks a = Some bs \<and> list_all tags_agree bs \<and>
     sum_list (map block_size bs) = BYTE_COUNT \<and> contiguous_from 0 bs"
proof -
  assume "reachable a H"
  then have "well_formed a H" by (rule reachable_well_formed)
  then obtain bs where lay: "layout a bs" unfolding well_formed_def by blast
  let ?ts = "sentinel # bs @ [sentinel]"
  from lay have sp: "0 + span ?ts = BYTE_COUNT" by (simp add: layout_def)
  have "print_blocks a = Some (infos 0 ?ts)" using lay by (rule well_formed_print_blocks)
  moreover have "list_all tags_agree (infos 0 ?ts)" by (rule infos_tags_agree)
  moreover have "sum_list (map block_size (infos 0 ?ts)) = BYTE_COUNT"
    unfolding infos_block_size using sp by simp
  moreover have "contiguous_from 0 (infos 0 ?ts)" using sp by (rule infos_contiguous)
  ultimately show ?thesis by blast
qed

theorem reachable_partition_witness:
  "\<exists>a. allocate_allocate_release = Some a \<and> reachable a {22} \<and>
     (\<exists>bs. print_blocks a = Some bs \<and> list_all tags_agree bs \<and>
        sum_list (map block_size bs) = BYTE_COUNT \<and> contiguous_from 0 bs)"
proof -
  define a1 where "a1 = fst (the (simple_allocate (simple_init area0) 12))"
  define a2 where "a2 = fst (the (simple_allocate a1 12))"
  define a3 where "a3 = the (simple_release a2 (Ptr 6))"
  have s1: "simple_allocate (simple_init area0) 12 = Some (a1, Ptr 6)"
    unfolding a1_def by code_simp
  have s2: "simple_allocate a1 12 = Some (a2, Ptr 22)"
    unfolding a2_def a1_def by code_simp
  have s3: "simple_release a2 (Ptr 6) = Some a3"
    unfolding a3_def a2_def a1_def by code_simp
  have e: "allocate_allocate_release = Some a3"
    unfolding allocate_allocate_release_def a3_def a2_def a1_def by code_simp
  have "reachable (simple_init area0) {}"
    by (rule reachable.init) (simp add: area0_def)
  from reachable.allocate_ok [OF this s1] have "reachable a1 {6}" .
  from reachable.allocate_ok [OF this s2] have "reachable a2 {22, 6}" .
  from reachable.release [OF this _ s3] have "reachable a3 ({22, 6} - {6})" by simp
  moreover have "{22, 6} - {6} = {22 :: nat}" by auto
  ultimately have r: "reachable a3 {22}" by (simp only:)
  from reachable_partition [OF r] e r show ?thesis by blast
qed

section \<open>Allocation\<close>

text \<open>
  Claim C5. Whenever \<open>simple_allocate a n\<close> returns a handle \<open>h\<close>, the block in front
  of it is marked ALLOCATED and its payload size \<open>m\<close> satisfies \<open>n \<le> m \<le> n + 5\<close>
  (\<open>MIN_BLOCK_SIZE - 1\<close> is 5); the payload \<open>[h, h + m)\<close> and the two trailer bytes
  behind it lie inside the array.
\<close>

theorem allocate_fit:
  assumes "length a = BYTE_COUNT" "simple_allocate a n = Some (a', Ptr h)"
  shows "HEADER_SIZE \<le> h \<and> TOP_STATUS a' (h - HEADER_SIZE) = Some ALLOCATED \<and>
    (\<exists>m. PAYLOAD_SIZE a' (h - HEADER_SIZE) = Some m \<and> n \<le> m \<and> m \<le> n + (MIN_BLOCK_SIZE - 1) \<and>
       h + m + HEADER_SIZE \<le> BYTE_COUNT)"
proof -
  from allocate_result [OF assms] obtain q where q: "h = q + 2" "allocated_at a n q a'"
    by auto
  from q(2) have q1: "q + 1 < BYTE_COUNT" by (simp add: allocated_at_def)
  from allocated_at_head [OF assms(1) q(2)] q(1) q1 show ?thesis
    by (simp add: field_defs rd_def)
qed

theorem allocate_fit_witness:
  "length (simple_init area0) = BYTE_COUNT \<and>
   (\<exists>a'. simple_allocate (simple_init area0) 240 = Some (a', Ptr 6) \<and>
      TOP_STATUS a' 4 = Some ALLOCATED \<and>
      (\<exists>m. PAYLOAD_SIZE a' 4 = Some m \<and> 240 \<le> m \<and> m \<le> 245 \<and> 6 + m + HEADER_SIZE \<le> BYTE_COUNT))"
proof -
  have len: "length (simple_init area0) = BYTE_COUNT"
    by (simp add: simple_init_def area0_def)
  have "map_option snd (simple_allocate (simple_init area0) 240) = Some (Ptr 6)"
    by code_simp
  then obtain a' where al: "simple_allocate (simple_init area0) 240 = Some (a', Ptr 6)"
    by auto
  from allocate_fit [OF len al] len al show ?thesis by simp
qed

text \<open>
  Claim C6. A request of more than \<open>BYTE_COUNT - CONTROL_FIELDS_SIZE = 252\<close> bytes
  returns \<open>NULL\<close> at once, whatever the array holds (also where the search would run
  out of the array), and leaves the array as it was; and whenever \<open>simple_allocate\<close>
  returns \<open>NULL\<close>, for whichever of the two reasons, the array is unchanged.
\<close>

theorem allocate_failure_unmutated:
  "(BYTE_COUNT - CONTROL_FIELDS_SIZE < n \<longrightarrow> simple_allocate a n = Some (a, NULL)) \<and>
   (length a = BYTE_COUNT \<longrightarrow> simple_allocate a n = Some (a', NULL) \<longrightarrow> a' = a)"
proof (intro conjI impI)
  assume "BYTE_COUNT - CONTROL_FIELDS_SIZE < n"
  then show "simple_allocate a n = Some (a, NULL)" by (simp add: simple_allocate_def)
next
  assume "length a = BYTE_COUNT" "simple_allocate a n = Some (a', NULL)"
  from allocate_result [OF this] show "a' = a" by simp
qed

theorem allocate_failure_unmutated_witness:
  "BYTE_COUNT - CONTROL_FIELDS_SIZE < (253 :: nat) \<and>
   simple_allocate (area0[1 := 251]) 253 = Some (area0[1 := 251], NULL) \<and>
   simple_allocate_loop (area0[1 := 251]) 253 0 = None \<and>
   length (simple_init area0) = BYTE_COUNT \<and>
   simple_allocate (simple_init area0) 250 = Some (simple_init area0, NULL)"
proof -
  have "map_option snd (simple_allocate (simple_init area0) 250) = Some NULL"
    by code_simp
  then obtain a' where f: "simple_allocate (simple_init area0) 250 = Some (a', NULL)"
    by auto
  have len: "length (simple_init area0) = BYTE_COUNT"
    by (simp add: simple_init_def area0_def)
  have fault: "simple_allocate_loop (area0[1 := 251]) 253 0 = None"
    by code_simp
  from allocate_failure_unmutated [of 253 "area0[1 := 251]"]
    allocate_failure_unmutated [of 250 "simple_init area0" a'] f len fault
  show ?thesis by simp
qed

text \<open>
  Claim C8. Let \<open>simple_allocate a n\<close> return the handle \<open>h\<close> and the array \<open>a'\<close>.
  Then the block at \<open>h - 2\<close> was free with a payload \<open>m \<ge> n\<close>, and every byte of
  the array outside that block (in front of offset \<open>h - 2\<close>, or from \<open>h - 2 + m + 4\<close>
  on) is unchanged. In a reachable state this reads on the printed block list: the
  list before is \<open>pre @ b # post\<close> with \<open>b\<close> the found free block, and the list after
  is \<open>pre @ carved n b @ post\<close>, where \<open>carved n b\<close> is either \<open>b\<close> marked
  allocated, or an allocated block of \<open>n\<close> bytes and one new free block directly
  behind it; the blocks of \<open>pre\<close> and \<open>post\<close> are printed exactly as before.
\<close>

theorem allocate_frame:
  assumes al: "simple_allocate a n = Some (a', Ptr h)"
  shows "(length a = BYTE_COUNT \<longrightarrow>
      HEADER_SIZE \<le> h \<and> TOP_STATUS a (h - HEADER_SIZE) = Some FREE \<and>
      (\<exists>m. PAYLOAD_SIZE a (h - HEADER_SIZE) = Some m \<and> n \<le> m \<and>
         (\<forall>i. i < h - HEADER_SIZE \<or> h - HEADER_SIZE + m + CONTROL_FIELDS_SIZE \<le> i \<longrightarrow>
            a' ! i = a ! i)) \<and>
      length a' = length a) \<and>
    (reachable a H \<longrightarrow>
      (\<exists>pre b post. print_blocks a = Some (pre @ b # post) \<and>
         offset b + HEADER_SIZE = h \<and> top_status b = FREE \<and> n \<le> unat (top_size b) \<and>
         print_blocks a' = Some (pre @ carved n b @ post)))"
proof (rule conjI; rule impI)
  assume len: "length a = BYTE_COUNT"
  from allocate_result [OF len al] obtain q where q: "h = q + 2" "allocated_at a n q a'"
    by auto
  from q(2) have q1: "q + 1 < BYTE_COUNT" "a ! q = FREE" "n \<le> unat (a ! (q + 1))"
    by (simp_all add: allocated_at_def)
  from allocated_at_frame [OF q(2)] allocated_at_length [OF q(2)] q(1) q1
  show "HEADER_SIZE \<le> h \<and> TOP_STATUS a (h - HEADER_SIZE) = Some FREE \<and>
      (\<exists>m. PAYLOAD_SIZE a (h - HEADER_SIZE) = Some m \<and> n \<le> m \<and>
         (\<forall>i. i < h - HEADER_SIZE \<or> h - HEADER_SIZE + m + CONTROL_FIELDS_SIZE \<le> i \<longrightarrow>
            a' ! i = a ! i)) \<and>
      length a' = length a"
    by (simp add: field_defs rd_def)
next
  assume "reachable a H"
  then have "well_formed a H" by (rule reachable_well_formed)
  then obtain bs where lay: "layout a bs" unfolding well_formed_def by blast
  from layout_allocate [OF lay, of n] al
  obtain pre sz post where bs: "bs = pre @ (FREE, sz) # post" and n: "n \<le> unat sz"
    and h: "h = 4 + span pre + 2" and lay': "layout a' (pre @ carve n sz @ post)"
    by auto
  define q where "q = 4 + span pre"
  define b where "b = \<lparr>offset = q, top_status = FREE, top_size = sz, bottom_size = sz,
    bottom_status = FREE\<rparr>"
  define ps where "ps = sentinel # pre"
  define qs where "qs = post @ [sentinel]"
  have sp: "span ps = q" by (simp add: ps_def q_def)
  have e1: "sentinel # bs @ [sentinel] = ps @ (FREE, sz) # qs"
    by (simp add: bs ps_def qs_def)
  have e2: "sentinel # (pre @ carve n sz @ post) @ [sentinel] = ps @ carve n sz @ qs"
    by (simp add: ps_def qs_def)
  have i1: "infos 0 (ps @ (FREE, sz) # qs) = infos 0 ps @ b # infos (q + unat sz + 4) qs"
    by (simp add: infos_append sp b_def)
  have i2: "infos 0 (ps @ carve n sz @ qs) =
      infos 0 ps @ carved n b @ infos (q + unat sz + 4) qs"
    by (simp add: infos_append sp span_carve [OF n] infos_carve [OF n] b_def add.assoc)
  have before: "print_blocks a = Some (infos 0 ps @ b # infos (q + unat sz + 4) qs)"
    using well_formed_print_blocks [OF lay] unfolding e1 i1 .
  have after: "print_blocks a' = Some (infos 0 ps @ carved n b @ infos (q + unat sz + 4) qs)"
    using well_formed_print_blocks [OF lay'] unfolding e2 i2 .
  have "offset b + HEADER_SIZE = h" "top_status b = FREE" "n \<le> unat (top_size b)"
    using n by (simp_all add: b_def h q_def)
  with before after
  show "\<exists>pre b post. print_blocks a = Some (pre @ b # post) \<and>
         offset b + HEADER_SIZE = h \<and> top_status b = FREE \<and> n \<le> unat (top_size b) \<and>
         print_blocks a' = Some (pre @ carved n b @ post)"
    by blast
qed

theorem allocate_frame_witness:
  "\<exists>a a'. reachable a {6} \<and> length a = BYTE_COUNT \<and>
     simple_allocate a 80 = Some (a', Ptr 110) \<and>
     TOP_STATUS a 108 = Some FREE \<and>
     (\<exists>m. PAYLOAD_SIZE a 108 = Some m \<and> 80 \<le> m \<and>
        (\<forall>i. i < 108 \<or> 108 + m + CONTROL_FIELDS_SIZE \<le> i \<longrightarrow> a' ! i = a ! i)) \<and>
     (\<exists>pre b post. print_blocks a = Some (pre @ b # post) \<and> offset b = 108 \<and>
        top_status b = FREE \<and> print_blocks a' = Some (pre @ carved 80 b @ post))"
proof -
  define a1 where "a1 = fst (the (simple_allocate (simple_init area0) 100))"
  define a2 where "a2 = fst (the (simple_allocate a1 80))"
  have s1: "simple_allocate (simple_init area0) 100 = Some (a1, Ptr 6)"
    unfolding a1_def by code_simp
  have s2: "simple_allocate a1 80 = Some (a2, Ptr 110)"
    unfolding a2_def a1_def by code_simp
  have len: "length a1 = BYTE_COUNT"
    unfolding a1_def by code_simp
  have "reachable (simple_init area0) {}"
    by (rule reachable.init) (simp add: area0_def)
  from reachable.allocate_ok [OF this s1] have r: "reachable a1 {6}" .
  from allocate_frame [OF s2, of "{6}"] r len s2 show ?thesis
    by (intro exI [of _ a1] exI [of _ a2]) auto
qed

text \<open>
  Claim C9. Let \<open>244 < n \<le> 252\<close>. On the array as \<open>simple_init\<close> leaves it,
  \<open>simple_allocate\<close> does not return at its first test but runs the loop; the loop
  goes from offset 0 to 4, to 252 and to 256, where it ends and returns \<open>NULL\<close> with
  the array unchanged. That the request is really searched for shows on an array
  that holds a free block of \<open>n\<close> bytes at offset 0: there the same call returns the
  handle 2. The result on the initialised array is the very value that a request of
  more than 252 bytes gets, so a caller cannot tell the two failures apart. And in no
  reachable state can such a request succeed.

  That the search goes on from block to block shows on arrays that differ from the
  initialised one only behind the blocks already passed. On every array that agrees
  with it in the first sentinel, the call is the search from offset 4 on, and a free
  block of at least \<open>n\<close> bytes put there ends the call at that block (with the
  handle 6, or outside the array), never with \<open>NULL\<close> and the array unchanged. On
  every array that agrees with it below offset 252, the call is the search from offset
  252 on, and its result is decided by the two header bytes found there: a free block
  of at least \<open>n\<close> bytes leads out of the array, anything else gives \<open>NULL\<close>.
\<close>


theorem request_above_244:
  assumes n: "244 < n" "n \<le> BYTE_COUNT - CONTROL_FIELDS_SIZE" and len: "length a = BYTE_COUNT"
  shows "simple_allocate (simple_init a) n = simple_allocate_loop (simple_init a) n 0 \<and>
    simple_allocate_loop (simple_init a) n 0 = simple_allocate_loop (simple_init a) n 4 \<and>
    simple_allocate_loop (simple_init a) n 4 = simple_allocate_loop (simple_init a) n 252 \<and>
    simple_allocate_loop (simple_init a) n 252 = simple_allocate_loop (simple_init a) n BYTE_COUNT \<and>
    simple_allocate_loop (simple_init a) n BYTE_COUNT = Some (simple_init a, NULL) \<and>
    map_option snd (simple_allocate (area0[1 := of_nat n]) n) = Some (Ptr HEADER_SIZE) \<and>
    (\<forall>k. BYTE_COUNT - CONTROL_FIELDS_SIZE < k \<longrightarrow>
       simple_allocate (simple_init a) k = simple_allocate (simple_init a) n) \<and>
    (\<forall>b H. reachable b H \<longrightarrow> simple_allocate b n = Some (b, NULL)) \<and>
    (\<forall>b. length b = BYTE_COUNT \<longrightarrow> (\<forall>i<4. b ! i = simple_init a ! i) \<longrightarrow>
       simple_allocate b n = simple_allocate_loop b n 4 \<and>
       (b ! 4 = FREE \<longrightarrow> n \<le> unat (b ! 5) \<longrightarrow>
          simple_allocate b n = None \<or> (\<exists>b'. simple_allocate b n = Some (b', Ptr 6)))) \<and>
    (\<forall>b. length b = BYTE_COUNT \<longrightarrow> (\<forall>i<252. b ! i = simple_init a ! i) \<longrightarrow>
       simple_allocate b n = simple_allocate_loop b n 252 \<and>
       simple_allocate b n =
         (if b ! 252 = FREE \<and> n \<le> unat (b ! 253) then None else Some (b, NULL)))"
proof -
  let ?a = "simple_init a"
  have c1: "simple_allocate ?a n = simple_allocate_loop ?a n 0"
    using n by (simp add: simple_allocate_def)
  have "simple_allocate_loop ?a n 0 = simple_allocate_loop ?a n (0 + unat (?a ! (0 + 1)) + 4)"
    by (rule alloc_loop_skip) (simp_all add: init_nth [OF len])
  then have c2: "simple_allocate_loop ?a n 0 = simple_allocate_loop ?a n 4"
    by (simp add: init_nth [OF len])
  have "simple_allocate_loop ?a n 4 = simple_allocate_loop ?a n (4 + unat (?a ! (4 + 1)) + 4)"
    using n by (intro alloc_loop_skip) (simp_all add: init_nth [OF len])
  then have c3: "simple_allocate_loop ?a n 4 = simple_allocate_loop ?a n 252"
    by (simp add: init_nth [OF len])
  have "simple_allocate_loop ?a n 252 = simple_allocate_loop ?a n (252 + unat (?a ! (252 + 1)) + 4)"
    by (rule alloc_loop_skip) (simp_all add: init_nth [OF len])
  then have c4: "simple_allocate_loop ?a n 252 = simple_allocate_loop ?a n BYTE_COUNT"
    by (simp add: init_nth [OF len])
  have c5: "simple_allocate_loop ?a n BYTE_COUNT = Some (?a, NULL)"
    by (rule alloc_loop_end) simp
  have un: "unat (of_nat n :: byte) = n" using n by (simp add: unat_of_nat)
  define b where "b = area0[1 := of_nat n]"
  have b0: "b ! 0 = FREE" and b1: "b ! (0 + 1) = of_nat n"
    by (simp_all add: b_def area0_def)
  have "simple_allocate_loop b n 0 =
      (if 0 + unat (b ! (0 + 1)) + 3 < BYTE_COUNT then Some (consume_whole b 0, Ptr (0 + 2)) else None)"
  proof (rule alloc_loop_whole)
    show "0 + 1 < BYTE_COUNT" by simp
    show "b ! 0 = FREE" by (rule b0)
    show "n \<le> unat (b ! (0 + 1))" unfolding b1 un by simp
    show "unat (b ! (0 + 1)) - n < MIN_BLOCK_SIZE" unfolding b1 un by simp
  qed
  then have "simple_allocate_loop b n 0 = Some (consume_whole b 0, Ptr 2)"
    unfolding b1 un using n by simp
  then have c6: "map_option snd (simple_allocate (area0[1 := of_nat n]) n) = Some (Ptr HEADER_SIZE)"
    using n by (simp add: simple_allocate_def b_def)
  have c7: "\<forall>k. BYTE_COUNT - CONTROL_FIELDS_SIZE < k \<longrightarrow> simple_allocate ?a k = simple_allocate ?a n"
    using c1 c2 c3 c4 c5 by (simp add: simple_allocate_def)
  have c8: "\<forall>b H. reachable b H \<longrightarrow> simple_allocate b n = Some (b, NULL)"
    using reachable_no_large_block n(1) by blast
  have c9: "\<forall>b. length b = BYTE_COUNT \<longrightarrow> (\<forall>i<4. b ! i = simple_init a ! i) \<longrightarrow>
       simple_allocate b n = simple_allocate_loop b n 4 \<and>
       (b ! 4 = FREE \<longrightarrow> n \<le> unat (b ! 5) \<longrightarrow>
          simple_allocate b n = None \<or> (\<exists>b'. simple_allocate b n = Some (b', Ptr 6)))"
  proof (intro allI impI)
    fix b :: area
    assume lb: "length b = BYTE_COUNT" and ag: "\<forall>i<4. b ! i = simple_init a ! i"
    from ag have "b ! 0 = simple_init a ! 0" "b ! 1 = simple_init a ! 1" by simp_all
    then have h: "b ! 0 = ALLOCATED" "b ! 1 = 0" by (simp_all add: init_nth [OF len])
    have s: "simple_allocate b n = simple_allocate_loop b n 4"
      using n scan_to_4 [OF h] by (simp add: simple_allocate_def)
    have "simple_allocate b n = None \<or> (\<exists>b'. simple_allocate b n = Some (b', Ptr 6))"
      if "b ! 4 = FREE" "n \<le> unat (b ! 5)"
    proof -
      have "simple_allocate_loop b n 4 = None \<or>
        (\<exists>b'. simple_allocate_loop b n 4 = Some (b', Ptr (4 + 2)))"
        using that by (intro alloc_loop_found_not_null [OF lb]) simp_all
      then show ?thesis unfolding s by simp
    qed
    with s show "simple_allocate b n = simple_allocate_loop b n 4 \<and>
       (b ! 4 = FREE \<longrightarrow> n \<le> unat (b ! 5) \<longrightarrow>
          simple_allocate b n = None \<or> (\<exists>b'. simple_allocate b n = Some (b', Ptr 6)))"
      by blast
  qed
  have c10: "\<forall>b. length b = BYTE_COUNT \<longrightarrow> (\<forall>i<252. b ! i = simple_init a ! i) \<longrightarrow>
       simple_allocate b n = simple_allocate_loop b n 252 \<and>
       simple_allocate b n =
         (if b ! 252 = FREE \<and> n \<le> unat (b ! 253) then None else Some (b, NULL))"
  proof (intro allI impI)
    fix b :: area
    assume lb: "length b = BYTE_COUNT" and ag: "\<forall>i<252. b ! i = simple_init a ! i"
    from ag have "b ! 0 = simple_init a ! 0" "b ! 1 = simple_init a ! 1"
      "b ! 4 = simple_init a ! 4" "b ! 5 = simple_init a ! 5" by simp_all
    then have h: "b ! 0 = ALLOCATED" "b ! 1 = 0" "b ! 4 = FREE" "b ! 5 = 244"
      by (simp_all add: init_nth [OF len])
    have s: "simple_allocate b n = simple_allocate_loop b n 252"
      using n scan_to_4 [OF h(1,2)] scan_4_to_252 [OF n(1) h(3,4)]
      by (simp add: simple_allocate_def)
    with scan_at_252 [OF n(1) lb]
    show "simple_allocate b n = simple_allocate_loop b n 252 \<and>
       simple_allocate b n =
         (if b ! 252 = FREE \<and> n \<le> unat (b ! 253) then None else Some (b, NULL))"
      by simp
  qed
  from c1 c2 c3 c4 c5 c6 c7 c8 c9 c10 show ?thesis by blast
qed

theorem request_above_244_witness:
  "(244 :: nat) < 250 \<and> (250 :: nat) \<le> BYTE_COUNT - CONTROL_FIELDS_SIZE \<and> length area0 = BYTE_COUNT \<and>
   simple_allocate (simple_init area0) 250 = simple_allocate_loop (simple_init area0) 250 0 \<and>
   simple_allocate_loop (simple_init area0) 250 BYTE_COUNT = Some (simple_init area0, NULL) \<and>
   simple_allocate (simple_init area0) 253 = simple_allocate (simple_init area0) 250 \<and>
   map_option snd (simple_allocate (area0[1 := 250]) 250) = Some (Ptr HEADER_SIZE) \<and>
   reachable (simple_init area0) {} \<and>
   simple_allocate (simple_init area0) 250 = Some (simple_init area0, NULL) \<and>
   length ((simple_init area0)[5 := 250]) = BYTE_COUNT \<and>
   (simple_init area0)[5 := 250] ! 4 = FREE \<and>
   250 \<le> unat ((simple_init area0)[5 := 250] ! 5) \<and>
   simple_allocate ((simple_init area0)[5 := 250]) 250 =
     simple_allocate_loop ((simple_init area0)[5 := 250]) 250 4 \<and>
   simple_allocate ((simple_init area0)[5 := 250]) 250 = None \<and>
   length ((simple_init area0)[252 := FREE, 253 := 250]) = BYTE_COUNT \<and>
   simple_allocate ((simple_init area0)[252 := FREE, 253 := 250]) 250 =
     simple_allocate_loop ((simple_init area0)[252 := FREE, 253 := 250]) 250 252 \<and>
   simple_allocate ((simple_init area0)[252 := FREE, 253 := 250]) 250 = None"
proof -
  have len: "length area0 = BYTE_COUNT" by (simp add: area0_def)
  then have r: "reachable (simple_init area0) {}" by (rule reachable.init)
  have li: "length (simple_init area0) = BYTE_COUNT" by (simp add: simple_init_def area0_def)
  have n1: "(244 :: nat) < 250" and n2: "(250 :: nat) \<le> BYTE_COUNT - CONTROL_FIELDS_SIZE"
    by simp_all
  note th = request_above_244 [OF n1 n2 len]
  define b where "b = (simple_init area0)[5 := 250]"
  define c where "c = (simple_init area0)[252 := FREE, 253 := 250]"
  have lb: "length b = BYTE_COUNT" and lc: "length c = BYTE_COUNT"
    by (simp_all add: b_def c_def li)
  have agb: "\<forall>i<4. b ! i = simple_init area0 ! i" by (simp add: b_def)
  have agc: "\<forall>i<252. c ! i = simple_init area0 ! i" by (simp add: c_def)
  have b4: "b ! 4 = FREE" "250 \<le> unat (b ! 5)"
    by (simp_all add: b_def li init_nth [OF len])
  have c252: "c ! 252 = FREE \<and> 250 \<le> unat (c ! 253)"
    by (simp add: c_def li)
  have bn: "simple_allocate b 250 = None" unfolding b_def by code_simp
  from th have at4: "\<forall>b. length b = BYTE_COUNT \<longrightarrow> (\<forall>i<4. b ! i = simple_init area0 ! i) \<longrightarrow>
       simple_allocate b 250 = simple_allocate_loop b 250 4 \<and>
       (b ! 4 = FREE \<longrightarrow> 250 \<le> unat (b ! 5) \<longrightarrow>
          simple_allocate b 250 = None \<or> (\<exists>b'. simple_allocate b 250 = Some (b', Ptr 6)))"
    by (elim conjE)
  from th have at252: "\<forall>b. length b = BYTE_COUNT \<longrightarrow> (\<forall>i<252. b ! i = simple_init area0 ! i) \<longrightarrow>
       simple_allocate b 250 = simple_allocate_loop b 250 252 \<and>
       simple_allocate b 250 =
         (if b ! 252 = FREE \<and> 250 \<le> unat (b ! 253) then None else Some (b, NULL))"
    by (elim conjE)
  from at4 lb agb have sb: "simple_allocate b 250 = simple_allocate_loop b 250 4" by blast
  from at252 lc agc have sc: "simple_allocate c 250 = simple_allocate_loop c 250 252"
    and ifc: "simple_allocate c 250 =
      (if c ! 252 = FREE \<and> 250 \<le> unat (c ! 253) then None else Some (c, NULL))"
    by blast+
  have cn: "simple_allocate c 250 = None" using c252 by (simp add: ifc)
  have old: "(244 :: nat) < 250 \<and> (250 :: nat) \<le> BYTE_COUNT - CONTROL_FIELDS_SIZE \<and>
   length area0 = BYTE_COUNT \<and>
   simple_allocate (simple_init area0) 250 = simple_allocate_loop (simple_init area0) 250 0 \<and>
   simple_allocate_loop (simple_init area0) 250 BYTE_COUNT = Some (simple_init area0, NULL) \<and>
   simple_allocate (simple_init area0) 253 = simple_allocate (simple_init area0) 250 \<and>
   map_option snd (simple_allocate (area0[1 := 250]) 250) = Some (Ptr HEADER_SIZE) \<and>
   reachable (simple_init area0) {} \<and>
   simple_allocate (simple_init area0) 250 = Some (simple_init area0, NULL)"
    using th len r by simp
  from lb b4 sb bn lc sc cn
  have new: "length ((simple_init area0)[5 := 250]) = BYTE_COUNT \<and>
   (simple_init area0)[5 := 250] ! 4 = FREE \<and>
   250 \<le> unat ((simple_init area0)[5 := 250] ! 5) \<and>
   simple_allocate ((simple_init area0)[5 := 250]) 250 =
     simple_allocate_loop ((simple_init area0)[5 := 250]) 250 4 \<and>
   simple_allocate ((simple_init area0)[5 := 250]) 250 = None \<and>
   length ((simple_init area0)[252 := FREE, 253 := 250]) = BYTE_COUNT \<and>
   simple_allocate ((simple_init area0)[252 := FREE, 253 := 250]) 250 =
     simple_allocate_loop ((simple_init area0)[252 := FREE, 253 := 250]) 250 252 \<and>
   simple_allocate ((simple_init area0)[252 := FREE, 253 := 250]) 250 = None"
    unfolding b_def c_def by (intro conjI)
  from old new show ?thesis by (elim conjE) (intro conjI)
qed

text \<open>
  Claim C10. In a reachable state in which \<open>print_blocks\<close> shows a free block,
  \<open>simple_allocate a 0\<close> returns a handle, and the block in front of the handle is
  marked ALLOCATED at head and tail, with the same payload size below 6 at head and
  tail. On the freshly initialised array, whatever the array held before
  \<open>simple_init\<close>, it returns the handle 6: the free block of 244 bytes is split into
  an allocated block of payload 0 at offset 4, head and tail agreeing, and a free block
  of payload 240 at offset 8 directly behind it. The last part states the same for the
  array that holds zeros before \<open>simple_init\<close>, by computation.
\<close>


theorem allocate_zero:
  "(reachable a H \<longrightarrow> print_blocks a = Some bs \<longrightarrow> (\<exists>b\<in>set bs. top_status b = FREE) \<longrightarrow>
      (\<exists>a' h s. simple_allocate a 0 = Some (a', Ptr h) \<and> HEADER_SIZE \<le> h \<and>
         TOP_STATUS a' (h - HEADER_SIZE) = Some ALLOCATED \<and>
         BOTTOM_STATUS a' (h - HEADER_SIZE) = Some ALLOCATED \<and>
         TOP_SIZE a' (h - HEADER_SIZE) = Some s \<and> BOTTOM_SIZE a' (h - HEADER_SIZE) = Some s \<and>
         unat s < MIN_BLOCK_SIZE)) \<and>
   (length c = BYTE_COUNT \<longrightarrow>
      (\<exists>a'. simple_allocate (simple_init c) 0 = Some (a', Ptr 6) \<and>
         print_blocks a' = Some
          [\<lparr>offset = 0, top_status = ALLOCATED, top_size = 0, bottom_size = 0, bottom_status = ALLOCATED\<rparr>,
           \<lparr>offset = 4, top_status = ALLOCATED, top_size = 0, bottom_size = 0, bottom_status = ALLOCATED\<rparr>,
           \<lparr>offset = 8, top_status = FREE, top_size = 240, bottom_size = 240, bottom_status = FREE\<rparr>,
           \<lparr>offset = 252, top_status = ALLOCATED, top_size = 0, bottom_size = 0, bottom_status = ALLOCATED\<rparr>])) \<and>
   allocate_zero_after_init = Some (Ptr 6,
     [\<lparr>offset = 0, top_status = ALLOCATED, top_size = 0, bottom_size = 0, bottom_status = ALLOCATED\<rparr>,
      \<lparr>offset = 4, top_status = ALLOCATED, top_size = 0, bottom_size = 0, bottom_status = ALLOCATED\<rparr>,
      \<lparr>offset = 8, top_status = FREE, top_size = 240, bottom_size = 240, bottom_status = FREE\<rparr>,
      \<lparr>offset = 252, top_status = ALLOCATED, top_size = 0, bottom_size = 0, bottom_status = ALLOCATED\<rparr>])"
proof (intro conjI impI)
  assume "reachable a H" "print_blocks a = Some bs" "\<exists>b\<in>set bs. top_status b = FREE"
  then show "\<exists>a' h s. simple_allocate a 0 = Some (a', Ptr h) \<and> HEADER_SIZE \<le> h \<and>
         TOP_STATUS a' (h - HEADER_SIZE) = Some ALLOCATED \<and>
         BOTTOM_STATUS a' (h - HEADER_SIZE) = Some ALLOCATED \<and>
         TOP_SIZE a' (h - HEADER_SIZE) = Some s \<and> BOTTOM_SIZE a' (h - HEADER_SIZE) = Some s \<and>
         unat s < MIN_BLOCK_SIZE"
    by (rule allocate_zero_reachable)
next
  assume "length c = BYTE_COUNT"
  then show "\<exists>a'. simple_allocate (simple_init c) 0 = Some (a', Ptr 6) \<and>
         print_blocks a' = Some
          [\<lparr>offset = 0, top_status = ALLOCATED, top_size = 0, bottom_size = 0, bottom_status = ALLOCATED\<rparr>,
           \<lparr>offset = 4, top_status = ALLOCATED, top_size = 0, bottom_size = 0, bottom_status = ALLOCATED\<rparr>,
           \<lparr>offset = 8, top_status = FREE, top_size = 240, bottom_size = 240, bottom_status = FREE\<rparr>,
           \<lparr>offset = 252, top_status = ALLOCATED, top_size = 0, bottom_size = 0, bottom_status = ALLOCATED\<rparr>]"
    by (rule allocate_zero_init)
next
  show "allocate_zero_after_init = Some (Ptr 6,
     [\<lparr>offset = 0, top_status = ALLOCATED, top_size = 0, bottom_size = 0, bottom_status = ALLOCATED\<rparr>,
      \<lparr>offset = 4, top_status = ALLOCATED, top_size = 0, bottom_size = 0, bottom_status = ALLOCATED\<rparr>,
      \<lparr>offset = 8, top_status = FREE, top_size = 240, bottom_size = 240, bottom_status = FREE\<rparr>,
      \<lparr>offset = 252, top_status = ALLOCATED, top_size = 0, bottom_size = 0, bottom_status = ALLOCATED\<rparr>])"
    unfolding allocate_zero_after_init_def by code_simp
qed

theorem allocate_zero_witness:
  "(\<exists>a bs. reachable a {6} \<and> print_blocks a = Some bs \<and> list_ex (\<lambda>b. top_status b = FREE) bs \<and>
     (\<exists>a' h s. simple_allocate a 0 = Some (a', Ptr h) \<and> HEADER_SIZE \<le> h \<and>
         TOP_STATUS a' (h - HEADER_SIZE) = Some ALLOCATED \<and>
         BOTTOM_STATUS a' (h - HEADER_SIZE) = Some ALLOCATED \<and>
         TOP_SIZE a' (h - HEADER_SIZE) = Some s \<and> BOTTOM_SIZE a' (h - HEADER_SIZE) = Some s \<and>
         unat s < MIN_BLOCK_SIZE)) \<and>
   length (replicate BYTE_COUNT (1 :: byte)) = BYTE_COUNT \<and>
   (\<exists>a'. simple_allocate (simple_init (replicate BYTE_COUNT 1)) 0 = Some (a', Ptr 6) \<and>
      print_blocks a' = Some
       [\<lparr>offset = 0, top_status = ALLOCATED, top_size = 0, bottom_size = 0, bottom_status = ALLOCATED\<rparr>,
        \<lparr>offset = 4, top_status = ALLOCATED, top_size = 0, bottom_size = 0, bottom_status = ALLOCATED\<rparr>,
        \<lparr>offset = 8, top_status = FREE, top_size = 240, bottom_size = 240, bottom_status = FREE\<rparr>,
        \<lparr>offset = 252, top_status = ALLOCATED, top_size = 0, bottom_size = 0, bottom_status = ALLOCATED\<rparr>])"
proof -
  define a2 where "a2 = fst (the (simple_allocate (simple_init area0) 100))"
  define bs where "bs = the (print_blocks a2)"
  have s2: "simple_allocate (simple_init area0) 100 = Some (a2, Ptr 6)"
    unfolding a2_def by code_simp
  have pb: "print_blocks a2 = Some bs"
    unfolding bs_def a2_def by code_simp
  have fr: "list_ex (\<lambda>b. top_status b = FREE) bs"
    unfolding bs_def a2_def by code_simp
  then have fr': "\<exists>b\<in>set bs. top_status b = FREE" by (simp add: list_ex_iff)
  have "reachable (simple_init area0) {}"
    by (rule reachable.init) (simp add: area0_def)
  from reachable.allocate_ok [OF this s2] have r: "reachable a2 {6}" .
  have len: "length (replicate BYTE_COUNT (1 :: byte)) = BYTE_COUNT" by simp
  note th = allocate_zero [of a2 "{6}" bs "replicate BYTE_COUNT 1"]
  from th r pb fr' have g: "\<exists>a' h s. simple_allocate a2 0 = Some (a', Ptr h) \<and> HEADER_SIZE \<le> h \<and>
         TOP_STATUS a' (h - HEADER_SIZE) = Some ALLOCATED \<and>
         BOTTOM_STATUS a' (h - HEADER_SIZE) = Some ALLOCATED \<and>
         TOP_SIZE a' (h - HEADER_SIZE) = Some s \<and> BOTTOM_SIZE a' (h - HEADER_SIZE) = Some s \<and>
         unat s < MIN_BLOCK_SIZE"
    by blast
  from th len have i: "\<exists>a'. simple_allocate (simple_init (replicate BYTE_COUNT 1)) 0 = Some (a', Ptr 6) \<and>
      print_blocks a' = Some
       [\<lparr>offset = 0, top_status = ALLOCATED, top_size = 0, bottom_size = 0, bottom_status = ALLOCATED\<rparr>,
        \<lparr>offset = 4, top_status = ALLOCATED, top_size = 0, bottom_size = 0, bottom_status = ALLOCATED\<rparr>,
        \<lparr>offset = 8, top_status = FREE, top_size = 240, bottom_size = 240, bottom_status = FREE\<rparr>,
        \<lparr>offset = 252, top_status = ALLOCATED, top_size = 0, bottom_size = 0, bottom_status = ALLOCATED\<rparr>]"
    by blast
  from r pb fr g have "\<exists>a bs. reachable a {6} \<and> print_blocks a = Some bs \<and>
     list_ex (\<lambda>b. top_status b = FREE) bs \<and>
     (\<exists>a' h s. simple_allocate a 0 = Some (a', Ptr h) \<and> HEADER_SIZE \<le> h \<and>
         TOP_STATUS a' (h - HEADER_SIZE) = Some ALLOCATED \<and>
         BOTTOM_STATUS a' (h - HEADER_SIZE) = Some ALLOCATED \<and>
         TOP_SIZE a' (h - HEADER_SIZE) = Some s \<and> BOTTOM_SIZE a' (h - HEADER_SIZE) = Some s \<and>
         unat s < MIN_BLOCK_SIZE)"
    by blast
  with len i show ?thesis by blast
qed

section \<open>Release does not merge to the left\<close>

text \<open>
  Claim C1 says that after a release no two consecutive non-sentinel blocks are both
  free. The code, run on two 12-byte blocks that are released in the order of their
  allocation, leaves a free block of 12 bytes at offset 4 directly in front of a free
  block of 228 bytes at offset 20.
\<close>

theorem release_leaves_adjacent_free:
  "two_blocks_released = Some (Ptr 6, Ptr 22,
     [\<lparr>offset = 0, top_status = ALLOCATED, top_size = 0, bottom_size = 0, bottom_status = ALLOCATED\<rparr>,
      \<lparr>offset = 4, top_status = FREE, top_size = 12, bottom_size = 12, bottom_status = FREE\<rparr>,
      \<lparr>offset = 20, top_status = FREE, top_size = 228, bottom_size = 228, bottom_status = FREE\<rparr>,
      \<lparr>offset = 252, top_status = ALLOCATED, top_size = 0, bottom_size = 0, bottom_status = ALLOCATED\<rparr>]) \<and>
   adjacent_free (non_sentinel
     [\<lparr>offset = 0, top_status = ALLOCATED, top_size = 0, bottom_size = 0, bottom_status = ALLOCATED\<rparr>,
      \<lparr>offset = 4, top_status = FREE, top_size = 12, bottom_size = 12, bottom_status = FREE\<rparr>,
      \<lparr>offset = 20, top_status = FREE, top_size = 228, bottom_size = 228, bottom_status = FREE\<rparr>,
      \<lparr>offset = 252, top_status = ALLOCATED, top_size = 0, bottom_size = 0, bottom_status = ALLOCATED\<rparr>])"
  unfolding two_blocks_released_def by code_simp

text \<open>
  Claim C2 says that release absorbs a free left neighbour. In the code the first loop
  of \<open>simple_release\<close> tests the pointer \<open>left_block\<close> against 0, and a pointer into
  the array is never null: the loop returns \<open>block_ptr\<close> and \<open>t_size\<close> as they were.
  In the sequence of \<open>main\<close>, the last release (handle 38, block at offset 36) has a
  free left neighbour of 28 bytes at offset 4; afterwards that neighbour is still
  there, and the released block still starts at offset 36.
\<close>

theorem release_keeps_free_left_neighbour:
  "release_left_loop a block_ptr (Ptr l) t_size = Some (block_ptr, Ptr l, t_size) \<and>
   three_blocks_released = Some (Ptr 6, Ptr 22, Ptr 38,
     [\<lparr>offset = 0, top_status = ALLOCATED, top_size = 0, bottom_size = 0, bottom_status = ALLOCATED\<rparr>,
      \<lparr>offset = 4, top_status = FREE, top_size = 28, bottom_size = 28, bottom_status = FREE\<rparr>,
      \<lparr>offset = 36, top_status = FREE, top_size = 212, bottom_size = 212, bottom_status = FREE\<rparr>,
      \<lparr>offset = 252, top_status = ALLOCATED, top_size = 0, bottom_size = 0, bottom_status = ALLOCATED\<rparr>])"
proof
  show "release_left_loop a block_ptr (Ptr l) t_size = Some (block_ptr, Ptr l, t_size)"
    by (simp add: release_left_loop.simps)
  show "three_blocks_released = Some (Ptr 6, Ptr 22, Ptr 38,
     [\<lparr>offset = 0, top_status = ALLOCATED, top_size = 0, bottom_size = 0, bottom_status = ALLOCATED\<rparr>,
      \<lparr>offset = 4, top_status = FREE, top_size = 28, bottom_size = 28, bottom_status = FREE\<rparr>,
      \<lparr>offset = 36, top_status = FREE, top_size = 212, bottom_size = 212, bottom_status = FREE\<rparr>,
      \<lparr>offset = 252, top_status = ALLOCATED, top_size = 0, bottom_size = 0, bottom_status = ALLOCATED\<rparr>])"
    unfolding three_blocks_released_def by code_simp
qed

text \<open>
  Claim C4 says that an allocation followed at once by its release, with nothing else
  outstanding, restores the arena. The code, after three blocks have been allocated and
  released, holds free blocks of 12, 20 and 204 bytes and nothing outstanding;
  allocating 20 bytes takes the second of them, and releasing it merges it with the
  third only: free blocks of 12 and 228 bytes remain, which is neither the state before
  nor a single free block.
\<close>

theorem round_trip_not_restored:
  "round_trip_after_releases = Some
    ([\<lparr>offset = 0, top_status = ALLOCATED, top_size = 0, bottom_size = 0, bottom_status = ALLOCATED\<rparr>,
      \<lparr>offset = 4, top_status = FREE, top_size = 12, bottom_size = 12, bottom_status = FREE\<rparr>,
      \<lparr>offset = 20, top_status = FREE, top_size = 20, bottom_size = 20, bottom_status = FREE\<rparr>,
      \<lparr>offset = 44, top_status = FREE, top_size = 204, bottom_size = 204, bottom_status = FREE\<rparr>,
      \<lparr>offset = 252, top_status = ALLOCATED, top_size = 0, bottom_size = 0, bottom_status = ALLOCATED\<rparr>],
     Ptr 22,
     [\<lparr>offset = 0, top_status = ALLOCATED, top_size = 0, bottom_size = 0, bottom_status = ALLOCATED\<rparr>,
      \<lparr>offset = 4, top_status = FREE, top_size = 12, bottom_size = 12, bottom_status = FREE\<rparr>,
      \<lparr>offset = 20, top_status = FREE, top_size = 228, bottom_size = 228, bottom_status = FREE\<rparr>,
      \<lparr>offset = 252, top_status = ALLOCATED, top_size = 0, bottom_size = 0, bottom_status = ALLOCATED\<rparr>])"
  unfolding round_trip_after_releases_def by code_simp

end
